theory Spec2Isabelle
  imports Main "HOL-Library.Sublist"
begin

section \<open>JavaScript array primitives used by the sources\<close>

text \<open>
  \<open>Array.prototype.indexOf\<close>: the first index holding the searched value, \<open>-1\<close> when
  there is none. The language compares objects by identity, the model by value. Where
  the sources call it, the searched object is the first entry of the array with its
  path, so no earlier entry is equal to it by value either, and both comparisons give
  the same index.
\<close>

primrec indexOf :: "'a list \<Rightarrow> 'a \<Rightarrow> int" where
  "indexOf [] x = - 1"
| "indexOf (y # ys) x =
     (if y = x then 0 else (let i = indexOf ys x in if i < 0 then - 1 else i + 1))"

text \<open>
  \<open>Array.prototype.splice(start, deleteCount)\<close> without inserted items; the array that
  remains. A negative \<open>start\<close> counts from the end, and both arguments are clamped to
  the array, as the language defines it.
\<close>

definition splice :: "'a list \<Rightarrow> int \<Rightarrow> int \<Rightarrow> 'a list" where
  "splice xs start deleteCount =
     (let len = int (length xs);
          s = (if start < 0 then max (len + start) 0 else min start len);
          d = min (max deleteCount 0) (len - s)
      in take (nat s) xs @ drop (nat (s + d)) xs)"

text \<open>\<open>Array.prototype.slice(0, end)\<close> for a non-negative \<open>end\<close>.\<close>

definition slice0 :: "'a list \<Rightarrow> nat \<Rightarrow> 'a list" where
  "slice0 xs n = take n xs"

section \<open>RecentDocsProvider\<close>

text \<open>
  A document descriptor (\<open>MDFileMeta | CodeFileMeta\<close>). The provider reads only its
  \<open>path\<close>; the remaining fields live in the record extension.
\<close>

record file_meta =
  path :: string

text \<open>
  The provider's state is the private array \<open>_recentDocs\<close>, newest first. The
  constructor sets it to the empty array.
\<close>

type_synonym 'm recent_docs = "'m file_meta_scheme list"

definition init_docs :: "'m recent_docs" where
  "init_docs = []"

text \<open>
  \<open>global.recentDocs.add\<close>: look for an entry with the same path, splice it out at its
  index, put the document at the front, cut the list to 100 entries. The notification
  of the operating system's menu and the \<open>update\<close> event do not touch the list.
\<close>

definition add :: "'m file_meta_scheme \<Rightarrow> 'm recent_docs \<Rightarrow> 'm recent_docs" where
  "add doc docs =
     (let found = find (\<lambda>e. path e = path doc) docs;
          docs1 = (case found of
                     Some f \<Rightarrow> splice docs (indexOf docs f) 1
                   | None \<Rightarrow> docs);
          docs2 = doc # docs1
      in slice0 docs2 100)"

definition clear :: "'m recent_docs \<Rightarrow> 'm recent_docs" where
  "clear docs = []"

text \<open>
  The states the provider can be in: the array is private, so it only ever holds what
  the constructor, \<open>add\<close> and \<open>clear\<close> have made of it.
\<close>

inductive reachable :: "'m recent_docs \<Rightarrow> bool" where
  r_init: "reachable init_docs"
| r_add: "reachable docs \<Longrightarrow> reachable (add doc docs)"
| r_clear: "reachable docs \<Longrightarrow> reachable (clear docs)"

section \<open>RecentDocsProvider: the store behind \<open>get\<close>\<close>

text \<open>
  What \<open>add\<close> leaves in the list depends only on the paths and the order of the
  entries, so it is modelled above on the descriptors as values. \<open>get\<close> is about
  sharing between the provider's array and the array it hands out, so it is modelled on
  a store: arrays and objects live in cells, a cell's address is its index, and a slot
  holds a primitive value or the address of a cell. Numbers are integers here.
\<close>

datatype jval = VNull | VBool bool | VNum int | VStr string | VRef nat

datatype jcell = Arr "jval list" | Obj "(string \<times> jval) list"

type_synonym store = "jcell list"

text \<open>A JSON text, as the tree it denotes.\<close>

datatype json =
  JsNull | JsBool bool | JsNum int | JsStr string
| JsArr "json list" | JsObj "(string \<times> json) list"

text \<open>
  \<open>JSON.stringify\<close>: the value is read out of the store, cell by cell. The first
  argument bounds the nesting that is followed; a structure that refers back to itself
  has no JSON text (the library throws), and here it has none for any bound.
\<close>

fun stringify :: "nat \<Rightarrow> store \<Rightarrow> jval \<Rightarrow> json option" where
  "stringify 0 h v = None"
| "stringify (Suc n) h VNull = Some JsNull"
| "stringify (Suc n) h (VBool b) = Some (JsBool b)"
| "stringify (Suc n) h (VNum i) = Some (JsNum i)"
| "stringify (Suc n) h (VStr s) = Some (JsStr s)"
| "stringify (Suc n) h (VRef a) =
     (if a < length h then
        (case h ! a of
           Arr vs \<Rightarrow> map_option JsArr (those (map (stringify n h) vs))
         | Obj kvs \<Rightarrow>
             map_option JsObj
               (those (map (\<lambda>(k, v). map_option (Pair k) (stringify n h v)) kvs)))
      else None)"

text \<open>
  \<open>JSON.parse\<close>: every array and object of the text becomes a new cell behind the
  cells that exist, the parts before the whole.
\<close>

fun parse :: "json \<Rightarrow> store \<Rightarrow> jval \<times> store"
  and parse_list :: "json list \<Rightarrow> store \<Rightarrow> jval list \<times> store"
  and parse_fields :: "(string \<times> json) list \<Rightarrow> store \<Rightarrow> (string \<times> jval) list \<times> store" where
  "parse JsNull h = (VNull, h)"
| "parse (JsBool b) h = (VBool b, h)"
| "parse (JsNum i) h = (VNum i, h)"
| "parse (JsStr s) h = (VStr s, h)"
| "parse (JsArr ts) h =
     (case parse_list ts h of (vs, h') \<Rightarrow> (VRef (length h'), h' @ [Arr vs]))"
| "parse (JsObj fs) h =
     (case parse_fields fs h of (kvs, h') \<Rightarrow> (VRef (length h'), h' @ [Obj kvs]))"
| "parse_list [] h = ([], h)"
| "parse_list (t # ts) h =
     (case parse t h of (v, h1) \<Rightarrow>
        (case parse_list ts h1 of (vs, h2) \<Rightarrow> (v # vs, h2)))"
| "parse_fields [] h = ([], h)"
| "parse_fields ((k, t) # fs) h =
     (case parse t h of (v, h1) \<Rightarrow>
        (case parse_fields fs h1 of (kvs, h2) \<Rightarrow> ((k, v) # kvs, h2)))"

text \<open>The provider in the store: \<open>_recentDocs\<close> holds the address of its array.\<close>

record provider =
  heap :: store
  recentDocs :: nat

text \<open>
  \<open>global.recentDocs.get\<close>: \<open>JSON.parse(JSON.stringify(this._recentDocs))\<close>. The result
  is the returned value and the provider with the store after the call; \<open>None\<close> when
  the list has no JSON text within the bound.
\<close>

definition get :: "nat \<Rightarrow> provider \<Rightarrow> (jval \<times> provider) option" where
  "get n st =
     (case stringify n (heap st) (VRef (recentDocs st)) of
        None \<Rightarrow> None
      | Some t \<Rightarrow>
          (case parse t (heap st) of (v, h') \<Rightarrow> Some (v, st\<lparr>heap := h'\<rparr>)))"

text \<open>The length of the array at an address (0 when there is no array there).\<close>

definition array_length :: "store \<Rightarrow> jval \<Rightarrow> nat" where
  "array_length h v =
     (case v of
        VRef a \<Rightarrow> (if a < length h then (case h ! a of Arr vs \<Rightarrow> length vs | Obj kvs \<Rightarrow> 0) else 0)
      | _ \<Rightarrow> 0)"

text \<open>\<open>global.recentDocs.hasDocs\<close>: \<open>this._recentDocs.length > 0\<close>.\<close>

definition hasDocs :: "provider \<Rightarrow> bool" where
  "hasDocs st = (array_length (heap st) (VRef (recentDocs st)) > 0)"

text \<open>The addresses a cell refers to, addresses that all lie in a range, and the
  nesting of a JSON text: the bound that \<open>stringify\<close> needs to produce it.\<close>

definition val_refs :: "jval \<Rightarrow> nat list" where
  "val_refs v = (case v of VRef a \<Rightarrow> [a] | _ \<Rightarrow> [])"

definition cell_refs :: "jcell \<Rightarrow> nat list" where
  "cell_refs c =
     (case c of
        Arr vs \<Rightarrow> concat (map val_refs vs)
      | Obj kvs \<Rightarrow> concat (map (\<lambda>(k, v). val_refs v) kvs))"

definition fresh_refs :: "nat \<Rightarrow> nat \<Rightarrow> nat list \<Rightarrow> bool" where
  "fresh_refs lo hi rs = (\<forall>r \<in> set rs. lo \<le> r \<and> r < hi)"

fun nesting :: "json \<Rightarrow> nat" where
  "nesting (JsArr ts) = Suc (fold max (map nesting ts) 0)"
| "nesting (JsObj fs) = Suc (fold max (map (\<lambda>(k, t). nesting t) fs) 0)"
| "nesting t = 1"

text \<open>A provider with one recent document, whose descriptor holds an array of tags.\<close>

definition example_provider :: provider where
  "example_provider =
     \<lparr>heap = [Arr [VStr ''x''],
              Obj [(''path'', VStr ''/a.md''), (''tags'', VRef 0)],
              Arr [VRef 1]],
      recentDocs = 2\<rparr>"

section \<open>TokenList\<close>

text \<open>
  A JavaScript string is a sequence of UTF-16 code units, here natural numbers.
  \<open>String.prototype.trim\<close> removes the white space and line terminators of the
  language from both ends.
\<close>

type_synonym js_string = "nat list"

definition is_js_space :: "nat \<Rightarrow> bool" where
  "is_js_space c =
     (c \<in> {9, 10, 11, 12, 13, 32, 160, 5760, 8232, 8233, 8239, 8287, 12288, 65279}
      \<or> (8192 \<le> c \<and> c \<le> 8202))"

definition trim :: "js_string \<Rightarrow> js_string" where
  "trim s = rev (dropWhile is_js_space (rev (dropWhile is_js_space s)))"

text \<open>A token made of white space only (the empty token included).\<close>

definition blank :: "js_string \<Rightarrow> bool" where
  "blank t = list_all is_js_space t"

text \<open>
  \<open>handleKey\<close> reads the \<open>value\<close> property (the current tokens), the text of the input
  field and the code of the pressed key. It returns the list handed to
  \<open>$emit('input', _)\<close>, if the event is emitted, and the new text of the input field.
\<close>

definition handleKey ::
  "js_string list \<Rightarrow> js_string \<Rightarrow> string \<Rightarrow> js_string list option \<times> js_string" where
  "handleKey val inputValue code =
     (if trim inputValue = [] then (None, inputValue)
      else if code \<in> set [''Space'', ''Enter'', ''Comma'', ''Tab''] then
        (let arr = map (\<lambda>token. token) val
         in if trim inputValue \<notin> set arr
            then (Some (arr @ [trim inputValue]), [])
            else (None, []))
      else (None, inputValue))"

text \<open>\<open>removeToken\<close> emits a copy of the list without the element at \<open>idx\<close>.\<close>

definition removeToken :: "js_string list \<Rightarrow> int \<Rightarrow> js_string list" where
  "removeToken val idx = splice (map (\<lambda>token. token) val) idx 1"

section \<open>Spellchecker mode: characters\<close>

text \<open>
  The mode works on JavaScript strings, sequences of UTF-16 code units. \<open>js\<close> writes
  an ASCII text as such a string.
\<close>

definition js :: "string \<Rightarrow> js_string" where
  "js s = map of_char s"

text \<open>
  The constant \<open>delim\<close>, character by character as the source has it: the ASCII
  punctuation without the apostrophe, the inverted question mark, the space and the
  no-break space, the left guillemet, the low double quotation mark, three corner
  brackets, en dash, em dash, ellipsis and the division sign. \<open>delim.includes(ch)\<close> is
  membership in this list.
\<close>

definition delim :: js_string where
  "delim =
     js ''!'' @ [0x22] @ js ''#$%&()*+,-./:;<=>'' @ [0xBF] @ js ''?@['' @ [0x5C]
     @ js '']^_'' @ [0x60] @ js ''{|}~ ''
     @ [0xA0, 0xAB, 0x201E, 0x300C, 0x300E, 0x300F, 0x2013, 0x2014, 0x2026, 0xF7]"

text \<open>The constant \<open>allQuotes\<close>, in the order of the source.\<close>

definition allQuotes :: js_string where
  "allQuotes =
     [0x2018, 0x2019, 0x201A, 0x202F, 0x203A, 0x2039, 0xAB, 0xBB, 0x201E, 0x201C, 0x201D,
      0x300C, 0x300D, 0x300E, 0x300F, 0x22, 0x27]"

section \<open>Spellchecker mode: the cache and \<open>check\<close>\<close>

text \<open>
  \<open>spellcheckCache\<close> is a map from terms to answers. The dictionary provider is asked
  with \<open>ipcRenderer.sendSync\<close>; its answer is a boolean, or \<open>undefined\<close> (here \<open>None\<close>)
  while the dictionary is not ready.
\<close>

type_synonym cache = "js_string \<rightharpoonup> bool"

type_synonym dictionary = "js_string \<Rightarrow> bool option"

text \<open>
  \<open>String.prototype.replace\<close> with a global expression that is a plain sequence of
  characters: every occurrence of \<open>pat\<close>, from left to right and without overlap, gives
  way to \<open>rep\<close>.
\<close>

function replace_all :: "js_string \<Rightarrow> js_string \<Rightarrow> js_string \<Rightarrow> js_string" where
  "replace_all pat rep [] = []"
| "replace_all pat rep (c # cs) =
     (if pat \<noteq> [] \<and> prefix pat (c # cs)
      then rep @ replace_all pat rep (drop (length pat - 1) cs)
      else c # replace_all pat rep cs)"
  by pat_completeness auto
termination
  by (relation "measure (\<lambda>(pat, rep, s). length s)") auto

text \<open>
  The expression in \<open>check\<close> has no character class: it is the sequence of these nine
  quotation marks, one after the other.
\<close>

definition smart_quotes :: js_string where
  "smart_quotes = [0x2019, 0x2018, 0x201A, 0x2039, 0x203A, 0xBB, 0x201C, 0x201D, 0x300D]"

text \<open>\<open>saneTerm\<close>: the term with every such sequence replaced by an apostrophe.\<close>

definition saneTerm :: "js_string \<Rightarrow> js_string" where
  "saneTerm term = replace_all smart_quotes [0x27] term"

text \<open>
  \<open>check(term)\<close>. The result is the value returned, the cache afterwards, and the terms
  sent to the dictionary provider during the call.
\<close>

definition check :: "dictionary \<Rightarrow> cache \<Rightarrow> js_string \<Rightarrow> bool \<times> cache \<times> js_string list" where
  "check d c term =
     (case c (saneTerm term) of
        Some b \<Rightarrow> (b, c, [])
      | None \<Rightarrow>
          (case d (saneTerm term) of
             None \<Rightarrow> (True, c, [saneTerm term])
           | Some correct \<Rightarrow> (correct, c(saneTerm term \<mapsto> correct), [saneTerm term])))"

text \<open>
  The listener for messages of the dictionary provider: on the command
  \<open>invalidate-dict\<close> the cache is replaced by an empty one.
\<close>

definition on_dictionary_provider :: "string \<Rightarrow> cache \<Rightarrow> cache" where
  "on_dictionary_provider command c =
     (if command = ''invalidate-dict'' then Map.empty else c)"

section \<open>Spellchecker mode: \<open>token\<close>\<close>

text \<open>
  The expressions for tags, inline code and footnote references come from
  \<open>regular-expressions.js\<close>, which is not part of the sources at hand, so they are
  parameters. Applied to the rest of the line from the current position on, an
  expression gives the number of characters by which \<open>stream.match\<close> advances, and
  \<open>None\<close> where \<open>stream.match\<close> gives \<open>null\<close>: the expression matches nowhere, or
  not at the current position.
\<close>

type_synonym matcher = "js_string \<Rightarrow> nat option"

text \<open>
  What the mode reads of its configuration (\<open>config.zettlr.zettelkasten\<close>), and the
  three expressions.
\<close>

record mode_config =
  linkStart :: js_string
  linkEnd :: js_string
  zknTagRE :: matcher
  codeRE :: matcher
  footnoteRefRE :: matcher

text \<open>\<open>stream.match\<close>: a match is a piece of the rest of the line, never longer.\<close>

definition stream_match :: "matcher \<Rightarrow> js_string \<Rightarrow> nat option" where
  "stream_match re rest = map_option (\<lambda>n. min n (length rest)) (re rest)"

text \<open>The escaping of the link delimiters before they are put into an expression.\<close>

definition escape_regex :: "js_string \<Rightarrow> js_string" where
  "escape_regex s =
     concat (map (\<lambda>c. if c \<in> set (js ''.*+?^${}()|[]'') \<or> c = 0x5C then [0x5C, c] else [c]) s)"

text \<open>A dot of an expression matches every code unit but the four line terminators.\<close>

definition dot :: "nat \<Rightarrow> bool" where
  "dot c = (c \<notin> {0x0A, 0x0D, 0x2028, 0x2029})"

text \<open>
  The tail of \<open>.+?\<close> followed by \<open>le\<close>: the least number of further characters, none
  of them a line terminator, after which \<open>le\<close> stands.
\<close>

fun lazy_until :: "js_string \<Rightarrow> js_string \<Rightarrow> nat option" where
  "lazy_until le [] = (if le = [] then Some 0 else None)"
| "lazy_until le (c # cs) =
     (if prefix le (c # cs) then Some 0
      else if dot c then map_option Suc (lazy_until le cs)
      else None)"

text \<open>
  \<open>zknLinkRE = new RegExp(ls + '.+?' + le)\<close> at the current position: the escaped
  delimiters match themselves, and between them stands at least one character, as few
  as possible.
\<close>

definition zknLinkRE :: "js_string \<Rightarrow> js_string \<Rightarrow> matcher" where
  "zknLinkRE ls le rest =
     (if prefix ls rest then
        (case drop (length ls) rest of
           [] \<Rightarrow> None
         | c # cs \<Rightarrow>
             if dot c then map_option (\<lambda>k. length ls + Suc k + length le) (lazy_until le cs)
             else None)
      else None)"

text \<open>Modelled from the spec: the kinds of a Span (section 3); the code has no such
  type, a kind names the branch in which \<open>token\<close> returns.\<close>

datatype kind = Link | Tag | FootnoteRef | Code | Number | URL | Word

text \<open>
  The first attempt of \<open>token\<close>: the link expression, tried only when the escaped link
  start is not empty.
\<close>

definition link_match :: "mode_config \<Rightarrow> js_string \<Rightarrow> nat option" where
  "link_match cfg rest =
     (if escape_regex (linkStart cfg) \<noteq> []
      then stream_match (zknLinkRE (linkStart cfg) (linkEnd cfg)) rest
      else None)"

text \<open>
  The four attempts at the head of \<open>token\<close>, in the order of the source: link, tag,
  inline code, footnote reference. The result is the branch and the number of
  characters consumed.
\<close>

definition special :: "mode_config \<Rightarrow> js_string \<Rightarrow> (kind \<times> nat) option" where
  "special cfg rest =
     (case link_match cfg rest of
        Some n \<Rightarrow> Some (Link, n)
      | None \<Rightarrow>
     (case stream_match (zknTagRE cfg) rest of
        Some n \<Rightarrow> Some (Tag, n)
      | None \<Rightarrow>
     (case stream_match (codeRE cfg) rest of
        Some n \<Rightarrow> Some (Code, n)
      | None \<Rightarrow>
     (case stream_match (footnoteRefRE cfg) rest of
        Some n \<Rightarrow> Some (FootnoteRef, n)
      | None \<Rightarrow> None))))"

text \<open>\<open>/\d+/.test(word)\<close>: the word holds a digit.\<close>

definition has_digit :: "js_string \<Rightarrow> bool" where
  "has_digit word = list_ex (\<lambda>c. c \<in> set (js ''0123456789'')) word"

text \<open>\<open>pat\<close> occurs somewhere in \<open>s\<close>.\<close>

fun occurs :: "js_string \<Rightarrow> js_string \<Rightarrow> bool" where
  "occurs pat [] = (pat = [])"
| "occurs pat (c # cs) = (prefix pat (c # cs) \<or> occurs pat cs)"

text \<open>\<open>/https?|www\./.test(word)\<close>: somewhere in the word stands \<open>http\<close>, with or
  without an \<open>s\<close> behind it, or \<open>www.\<close>.\<close>

definition is_link :: "js_string \<Rightarrow> bool" where
  "is_link word = (occurs (js ''http'') word \<or> occurs (js ''www.'') word)"

text \<open>
  The two steps before \<open>check(word)\<close> that take a quotation mark off the front and off
  the end of the word.
\<close>

definition unquote :: "js_string \<Rightarrow> js_string" where
  "unquote word =
     (let w1 = (if word \<noteq> [] \<and> hd word \<in> set allQuotes then drop 1 word else word);
          w2 = (if w1 \<noteq> [] \<and> last w1 \<in> set allQuotes then take (length w1 - 1) w1 else w1)
      in w2)"

text \<open>
  \<open>token(stream)\<close> with the stream at position \<open>start\<close> of the line; at the end of
  the line \<open>stream.peek()\<close> gives nothing, which no set of characters includes. The
  result is the branch taken (\<open>None\<close> for the single delimiter), the style
  returned (\<open>None\<close> for \<open>null\<close>), the position of the stream afterwards, the cache
  afterwards and the terms sent to the dictionary provider.
\<close>

definition token ::
  "mode_config \<Rightarrow> dictionary \<Rightarrow> cache \<Rightarrow> js_string \<Rightarrow> nat
     \<Rightarrow> (kind option \<times> string option \<times> nat) \<times> cache \<times> js_string list" where
  "token cfg d c line start =
     (let rest = drop start line;
          ch = hd rest
      in case special cfg rest of
           Some (k, n) \<Rightarrow> ((Some k, None, start + n), c, [])
         | None \<Rightarrow>
             if rest \<noteq> [] \<and> ch \<in> set delim then ((None, None, start + 1), c, [])
             else
               (let word = takeWhile (\<lambda>ch. ch \<notin> set delim) rest;
                    pos = start + length word
                in if has_digit word then ((Some Number, None, pos), c, [])
                   else if is_link word then
                     ((Some URL, None, pos + length (takeWhile (\<lambda>ch. ch \<noteq> 0x20) (drop pos line))),
                      c, [])
                   else
                     (case check d c (unquote word) of
                        (correct, c', q) \<Rightarrow>
                          ((Some Word, if \<not> correct then Some ''spell-error'' else None, pos),
                           c', q))))"

section \<open>Spellchecker mode: the spans of a line\<close>

text \<open>Modelled from the spec: the Span of section 3, whose declaration is missing;
  \<open>correct\<close> is \<open>None\<close> while undefined.\<close>

record span =
  kind :: kind
  span_text :: js_string
  startOffset :: nat
  endOffset :: nat
  correct :: "bool option"

text \<open>Modelled from the spec: the Span (section 3) that stands for one call of
  \<open>token\<close>: its kind is the branch, its text what the call has consumed
  (\<open>stream.current()\<close>), and for a Word \<open>correct\<close> tells whether the style was \<open>null\<close>.\<close>

definition span_of :: "js_string \<Rightarrow> nat \<Rightarrow> kind \<Rightarrow> string option \<Rightarrow> nat \<Rightarrow> span" where
  "span_of line start k style pos =
     \<lparr>kind = k, span_text = take (pos - start) (drop start line),
      startOffset = start, endOffset = pos,
      correct = (if k = Word then Some (style = None) else None)\<rparr>"

text \<open>Modelled from the spec: the span sequence of a line (sections 4.1 and 4.3). The
  editor calls \<open>token\<close> where the call before has stopped, until the end of the line,
  and gives up with an error when a call has not advanced; then there is no span
  sequence (\<open>None\<close>). A delimiter gives no span. The result also holds the cache
  afterwards and the terms sent to the dictionary provider.\<close>

function tokens ::
  "mode_config \<Rightarrow> dictionary \<Rightarrow> cache \<Rightarrow> js_string \<Rightarrow> nat
     \<Rightarrow> span list option \<times> cache \<times> js_string list" where
  "tokens cfg d c line pos =
     (if length line \<le> pos then (Some [], c, [])
      else
        (case token cfg d c line pos of
           ((k, style, pos'), c1, q1) \<Rightarrow>
             if pos' \<le> pos then (None, c1, q1)
             else
               (case tokens cfg d c1 line pos' of
                  (r, c2, q2) \<Rightarrow>
                    (map_option
                       (\<lambda>ss. (case k of None \<Rightarrow> [] | Some kd \<Rightarrow> [span_of line pos kd style pos']) @ ss)
                       r,
                     c2, q1 @ q2))))"
  by pat_completeness auto
termination
  by (relation "measure (\<lambda>(cfg, d, c, line, pos). length line - pos)") auto

text \<open>Modelled from the spec: the annotation of one line (section 4.3). In the code
  tokenizing and checking are one pass: \<open>token\<close> calls \<open>check\<close> for each word.\<close>

definition annotate ::
  "mode_config \<Rightarrow> dictionary \<Rightarrow> cache \<Rightarrow> js_string \<Rightarrow> span list option \<times> cache \<times> js_string list" where
  "annotate cfg d c line = tokens cfg d c line 0"

text \<open>Modelled from the spec: the Tokenizer's span sequence for a line (section 4.1).\<close>

definition tokenize ::
  "mode_config \<Rightarrow> dictionary \<Rightarrow> cache \<Rightarrow> js_string \<Rightarrow> span list option" where
  "tokenize cfg d c line = fst (annotate cfg d c line)"

text \<open>The spans follow each other from \<open>pos\<close> on without overlap.\<close>

fun ordered_from :: "nat \<Rightarrow> span list \<Rightarrow> bool" where
  "ordered_from pos [] = True"
| "ordered_from pos (s # ss) =
     (pos \<le> startOffset s \<and> startOffset s \<le> endOffset s \<and> ordered_from (endOffset s) ss)"

text \<open>The characters of a text that are not delimiters, in their order.\<close>

definition non_delimiters :: "js_string \<Rightarrow> js_string" where
  "non_delimiters line = filter (\<lambda>c. c \<notin> set delim) line"

text \<open>Offset \<open>i\<close> lies inside one of the spans.\<close>

definition covered :: "span list \<Rightarrow> nat \<Rightarrow> bool" where
  "covered ss i = list_ex (\<lambda>s. startOffset s \<le> i \<and> i < endOffset s) ss"

text \<open>A span with its \<open>correct\<close> field left out of account.\<close>

definition shape :: "span \<Rightarrow> span" where
  "shape s = s\<lparr>correct := None\<rparr>"

text \<open>None of the three expressions ever matches the empty text.\<close>

definition never_empty :: "mode_config \<Rightarrow> bool" where
  "never_empty cfg =
     (\<forall>rest. zknTagRE cfg rest \<noteq> Some 0 \<and> codeRE cfg rest \<noteq> Some 0
        \<and> footnoteRefRE cfg rest \<noteq> Some 0)"

section \<open>Annotation Pipeline: Line Records\<close>

text \<open>Modelled from the spec: the Line Record of section 3, whose declaration is
  missing.\<close>

record line_record =
  lineIndex :: nat
  rawText :: js_string
  spans :: "span list"
  dirty :: bool

text \<open>Modelled from the spec: the scan of a Line Record (section 4.3): its spans are
  replaced by the annotation of its raw text and it becomes Clean. When the editor
  gives up on the line the scan is not completed and the record stays as it is.\<close>

definition scan ::
  "mode_config \<Rightarrow> dictionary \<Rightarrow> cache \<Rightarrow> line_record \<Rightarrow> line_record \<times> cache" where
  "scan p d c r =
     (case annotate p d c (rawText r) of
        (Some ss, c', q) \<Rightarrow> (r\<lparr>spans := ss, dirty := False\<rparr>, c')
      | (None, c', q) \<Rightarrow> (r, c'))"

text \<open>A dictionary that is not ready, and one that knows no word.\<close>

definition not_ready :: dictionary where
  "not_ready t = None"

definition rejects_all :: dictionary where
  "rejects_all t = Some False"

definition accepts_all :: dictionary where
  "accepts_all t = Some True"

text \<open>The empty cache, as \<open>Object.create(null)\<close> makes it.\<close>

definition empty_cache :: cache where
  "empty_cache = Map.empty"

section \<open>Spellchecker mode: the configuration of the worked examples\<close>

text \<open>
  A stand-in for the tag expression, for the examples only: a hash sign and the
  characters behind it up to the next delimiter.
\<close>

definition tag_pattern :: matcher where
  "tag_pattern rest =
     (case rest of
        [] \<Rightarrow> None
      | c # cs \<Rightarrow>
          if c = 0x23 then
            (let name = takeWhile (\<lambda>x. x \<notin> set delim) cs
             in if name = [] then None else Some (Suc (length name)))
          else None)"

text \<open>
  The configuration of the examples: links between \<open>[[\<close> and \<open>]]\<close>, and stand-ins for
  the three expressions: the tag pattern above, inline code between two backticks,
  footnote references between \<open>[^\<close> and \<open>]\<close>.
\<close>

definition example_config :: mode_config where
  "example_config =
     \<lparr>linkStart = js ''[['', linkEnd = js '']]'',
      zknTagRE = tag_pattern,
      codeRE = zknLinkRE [0x60] [0x60],
      footnoteRefRE = zknLinkRE (js ''[^'') (js '']'')\<rparr>"

text \<open>The line of the first example.\<close>

definition example_line :: js_string where
  "example_line = js ''See [[note]] #idea here''"

text \<open>
  What the first example needs of the three expressions: the tag expression matches
  \<open>#idea\<close> where it stands, and none of the three matches where the words and the
  spaces of the line begin.
\<close>

definition example_expressions :: "mode_config \<Rightarrow> bool" where
  "example_expressions cfg =
     (zknTagRE cfg (drop 13 example_line) = Some 5
      \<and> list_all (\<lambda>i. zknTagRE cfg (drop i example_line) = None
                       \<and> codeRE cfg (drop i example_line) = None
                       \<and> footnoteRefRE cfg (drop i example_line) = None)
            [0, 3, 12, 18, 19])"

text \<open>A line of one misspelled word, not yet scanned.\<close>

definition teh_record :: line_record where
  "teh_record = \<lparr>lineIndex = 0, rawText = js ''teh'', spans = [], dirty = True\<rparr>"

section \<open>Incremental Re-scan Controller\<close>

text \<open>Modelled from the spec: the state behind section 4.4, the Line Records of the
  document and the Cache their Word spans are resolved with.\<close>

record controller =
  records :: "line_record list"
  dictCache :: cache

text \<open>Modelled from the spec: the initial document load of section 3, one record per
  buffer line, each scanned once, starting from the empty Cache.\<close>

fun load_lines ::
  "mode_config \<Rightarrow> dictionary \<Rightarrow> cache \<Rightarrow> nat \<Rightarrow> js_string list \<Rightarrow> line_record list \<times> cache" where
  "load_lines p d c i [] = ([], c)"
| "load_lines p d c i (l # ls) =
     (case scan p d c \<lparr>lineIndex = i, rawText = l, spans = [], dirty = True\<rparr> of
        (r, c1) \<Rightarrow>
          (case load_lines p d c1 (Suc i) ls of
             (rs, c2) \<Rightarrow> (r # rs, c2)))"

text \<open>Modelled from the spec: the controller after the initial document load
  (section 3).\<close>

definition load :: "mode_config \<Rightarrow> dictionary \<Rightarrow> js_string list \<Rightarrow> controller" where
  "load p d doc =
     (case load_lines p d Map.empty 0 doc of
        (rs, c) \<Rightarrow> \<lparr>records = rs, dictCache = c\<rparr>)"

text \<open>Modelled from the spec: \<open>markDirty\<close> of section 6, the forced re-scan of a
  line.\<close>

definition markDirty :: "nat \<Rightarrow> controller \<Rightarrow> controller" where
  "markDirty i st =
     st\<lparr>records := map (\<lambda>r. if lineIndex r = i then r\<lparr>dirty := True\<rparr> else r) (records st)\<rparr>"

text \<open>Modelled from the spec: the buffer-change notification of section 4.4 with the
  affected line indices and the shift delta. The records of the affected lines become
  Dirty; with a shift, the records beyond the change get their index shifted and
  become Dirty as well (the state machine of section 4.4). How the records of
  inserted or deleted lines are made or dropped is not described and is left out.\<close>

definition onBufferChange :: "nat list \<Rightarrow> int \<Rightarrow> controller \<Rightarrow> controller" where
  "onBufferChange affected delta st =
     st\<lparr>records :=
          map (\<lambda>r. if lineIndex r \<in> set affected then r\<lparr>dirty := True\<rparr>
                   else if delta \<noteq> 0 \<and> list_all (\<lambda>a. a < lineIndex r) affected
                     then r\<lparr>lineIndex := nat (int (lineIndex r) + delta), dirty := True\<rparr>
                   else r)
              (records st)\<rparr>"

text \<open>Modelled from the spec: \<open>getSpans\<close> of section 6 with the flush of section 4.4.
  A Dirty record is scanned on the current buffer text of its line and becomes Clean; a
  Clean record gives its stored spans; a line without record gives the empty sequence
  (section 7). The result is the span sequence, the controller afterwards and the line
  indices on which the Annotation Pipeline was invoked.\<close>

definition getSpans ::
  "mode_config \<Rightarrow> dictionary \<Rightarrow> (nat \<Rightarrow> js_string) \<Rightarrow> nat \<Rightarrow> controller
     \<Rightarrow> span list \<times> controller \<times> nat list" where
  "getSpans p d getBufferText i st =
     (case find (\<lambda>r. lineIndex r = i) (records st) of
        None \<Rightarrow> ([], st, [])
      | Some r \<Rightarrow>
          if dirty r then
            (case scan p d (dictCache st) (r\<lparr>rawText := getBufferText i\<rparr>) of
               (r', c') \<Rightarrow>
                 (spans r',
                  st\<lparr>records := map (\<lambda>x. if lineIndex x = i then r' else x) (records st),
                     dictCache := c'\<rparr>,
                  [i]))
          else (spans r, st, []))"

text \<open>Modelled from the spec: the ten-line document of the example in section 8.\<close>

definition doc10 :: "js_string list" where
  "doc10 = map js [''zero'', ''one'', ''two'', ''three'', ''four'',
                   ''five'', ''six'', ''seven'', ''eight'', ''nine'']"

section \<open>Properties of the array primitives\<close>

lemma indexOf_nonneg_iff: "0 \<le> indexOf xs x \<longleftrightarrow> x \<in> set xs"
  by (induction xs) (auto simp: Let_def)

lemma indexOf_ge: "- 1 \<le> indexOf xs x"
  by (induction xs) (auto simp: Let_def)

lemma indexOf_first:
  "x \<in> set xs \<Longrightarrow> nat (indexOf xs x) = length (takeWhile (\<lambda>y. y \<noteq> x) xs)"
proof (induction xs)
  case Nil
  then show ?case by simp
next
  case (Cons y ys)
  show ?case
  proof (cases "y = x")
    case True
    then show ?thesis by simp
  next
    case False
    with Cons.prems have mem: "x \<in> set ys" by simp
    then have "0 \<le> indexOf ys x" by (simp add: indexOf_nonneg_iff)
    with False Cons.IH [OF mem] show ?thesis
      by (simp add: Let_def nat_add_distrib)
  qed
qed

lemma splice_one:
  "n < length xs \<Longrightarrow> splice xs (int n) 1 = take n xs @ drop (Suc n) xs"
  by (simp add: splice_def Let_def min_def max_def nat_add_distrib)

lemma find_takeWhile:
  "find P xs = Some f \<Longrightarrow>
     takeWhile (\<lambda>y. y \<noteq> f) xs = takeWhile (\<lambda>y. \<not> P y) xs \<and> P f \<and> f \<in> set xs"
proof (induction xs)
  case Nil
  then show ?case by simp
next
  case (Cons y ys)
  then show ?case by (cases "P y") auto
qed

lemma remove_found:
  assumes "find P xs = Some f"
  shows "splice xs (indexOf xs f) 1 =
           takeWhile (\<lambda>y. \<not> P y) xs @ tl (dropWhile (\<lambda>y. \<not> P y) xs)"
proof -
  from find_takeWhile [OF assms]
  have tw: "takeWhile (\<lambda>y. y \<noteq> f) xs = takeWhile (\<lambda>y. \<not> P y) xs"
    and mem: "f \<in> set xs" and Pf: "P f" by simp_all
  let ?n = "length (takeWhile (\<lambda>y. \<not> P y) xs)"
  have idx: "indexOf xs f = int ?n"
    using indexOf_first [OF mem] mem tw by (simp add: indexOf_nonneg_iff [symmetric])
  have "dropWhile (\<lambda>y. \<not> P y) xs \<noteq> []"
    using mem Pf by (auto simp: dropWhile_eq_Nil_conv)
  then have "0 < length (dropWhile (\<lambda>y. \<not> P y) xs)" by simp
  moreover have "length xs = ?n + length (dropWhile (\<lambda>y. \<not> P y) xs)"
    by (metis length_append takeWhile_dropWhile_id)
  ultimately have lt: "?n < length xs" by simp
  have "take ?n xs = takeWhile (\<lambda>y. \<not> P y) xs"
    by (metis append_eq_conv_conj takeWhile_dropWhile_id)
  moreover have "drop (Suc ?n) xs = tl (dropWhile (\<lambda>y. \<not> P y) xs)"
    by (metis drop_Suc dropWhile_eq_drop tl_drop)
  ultimately show ?thesis
    using splice_one [OF lt] idx by simp
qed

lemma distinct_paths_unique:
  "distinct (map g xs) \<Longrightarrow>
     takeWhile (\<lambda>y. g y \<noteq> k) xs @ tl (dropWhile (\<lambda>y. g y \<noteq> k) xs) = filter (\<lambda>y. g y \<noteq> k) xs"
proof (induction xs)
  case Nil
  then show ?case by simp
next
  case (Cons y ys)
  show ?case
  proof (cases "g y = k")
    case True
    with Cons.prems have "\<forall>z\<in>set ys. g z \<noteq> k" by (auto simp: image_iff)
    then have "filter (\<lambda>z. g z \<noteq> k) ys = ys" by (simp add: filter_id_conv)
    with True show ?thesis by simp
  next
    case False
    with Cons show ?thesis by simp
  qed
qed

section \<open>RecentDocsProvider: what \<open>add\<close> does\<close>

lemma add_absent:
  "path doc \<notin> path ` set docs \<Longrightarrow> add doc docs = take 100 (doc # docs)"
proof -
  assume "path doc \<notin> path ` set docs"
  then have "find (\<lambda>e. path e = path doc) docs = None"
    by (auto simp: find_None_iff image_iff)
  then show ?thesis by (simp add: add_def slice0_def)
qed

lemma add_present:
  assumes "path doc \<in> path ` set docs"
  shows "add doc docs =
           take 100 (doc # (takeWhile (\<lambda>e. path e \<noteq> path doc) docs @
                            tl (dropWhile (\<lambda>e. path e \<noteq> path doc) docs)))"
proof -
  from assms obtain f where f: "find (\<lambda>e. path e = path doc) docs = Some f"
    by (cases "find (\<lambda>e. path e = path doc) docs") (auto simp: find_None_iff)
  from remove_found [OF f] f show ?thesis
    by (simp add: add_def slice0_def)
qed

lemma add_distinct:
  assumes "distinct (map path docs)"
  shows "add doc docs = take 100 (doc # filter (\<lambda>e. path e \<noteq> path doc) docs)"
proof (cases "path doc \<in> path ` set docs")
  case True
  then show ?thesis
    using add_present [OF True] distinct_paths_unique [OF assms, of "path doc"] by simp
next
  case False
  then have "filter (\<lambda>e. path e \<noteq> path doc) docs = docs"
    by (auto simp: filter_id_conv image_iff)
  with add_absent [OF False] show ?thesis by simp
qed

lemma add_keeps_distinct:
  assumes "distinct (map path docs)"
  shows "distinct (map path (add doc docs))"
proof -
  have "distinct (map path (doc # filter (\<lambda>e. path e \<noteq> path doc) docs))"
    using assms by (auto simp: distinct_map_filter)
  then have "distinct (take 100 (map path (doc # filter (\<lambda>e. path e \<noteq> path doc) docs)))"
    by (rule distinct_take)
  then show ?thesis
    by (simp only: add_distinct [OF assms] take_map)
qed

lemma add_length: "length (add doc docs) \<le> 100"
  by (simp add: add_def slice0_def Let_def)

lemma reachable_inv: "reachable docs \<Longrightarrow> length docs \<le> 100 \<and> distinct (map path docs)"
proof (induction rule: reachable.induct)
  case r_init
  show ?case by (simp add: init_docs_def)
next
  case (r_add docs doc)
  then show ?case by (simp add: add_length add_keeps_distinct)
next
  case (r_clear docs)
  show ?case by (simp add: clear_def)
qed

lemma filter_one_out:
  "distinct (map g xs) \<Longrightarrow> k \<in> g ` set xs \<Longrightarrow>
     Suc (length (filter (\<lambda>y. g y \<noteq> k) xs)) = length xs"
proof (induction xs)
  case Nil
  then show ?case by simp
next
  case (Cons y ys)
  show ?case
  proof (cases "g y = k")
    case True
    with Cons.prems have "\<forall>z\<in>set ys. g z \<noteq> k" by (auto simp: image_iff)
    then have "filter (\<lambda>z. g z \<noteq> k) ys = ys" by (simp add: filter_id_conv)
    with True show ?thesis by simp
  next
    case False
    with Cons show ?thesis by auto
  qed
qed

text \<open>
  C8. In every state the provider can reach, \<open>add doc\<close> leaves a list of at most 100
  entries, no two of them with the same path, whose first entry is \<open>doc\<close>; when the
  path was already listed the list keeps its length: the old entry of that path is
  gone and \<open>doc\<close> stands at the front of the other entries, in their old order.
\<close>

theorem add_bounded_unique_front:
  assumes "reachable docs"
  shows "length (add doc docs) \<le> 100
       \<and> distinct (map path (add doc docs))
       \<and> (\<exists>rest. add doc docs = doc # rest)
       \<and> (path doc \<in> path ` set docs \<longrightarrow>
            length (add doc docs) = length docs
          \<and> add doc docs = doc # filter (\<lambda>e. path e \<noteq> path doc) docs)"
proof -
  from reachable_inv [OF assms]
  have len: "length docs \<le> 100" and dist: "distinct (map path docs)" by simp_all
  have front: "\<exists>rest. add doc docs = doc # rest"
    by (simp add: add_distinct [OF dist] take_Cons')
  have moved: "length (add doc docs) = length docs
             \<and> add doc docs = doc # filter (\<lambda>e. path e \<noteq> path doc) docs"
    if mem: "path doc \<in> path ` set docs"
  proof -
    from filter_one_out [OF dist mem]
    have "Suc (length (filter (\<lambda>e. path e \<noteq> path doc) docs)) = length docs" .
    with len show ?thesis
      by (simp add: add_distinct [OF dist])
  qed
  have "length (add doc docs) \<le> 100" by (rule add_length)
  moreover have "distinct (map path (add doc docs))" by (rule add_keeps_distinct [OF dist])
  ultimately show ?thesis using front moved by blast
qed

theorem add_bounded_unique_front_witness:
  "reachable (add \<lparr>path = ''/b.md''\<rparr> (add \<lparr>path = ''/a.md''\<rparr> init_docs))
 \<and> add \<lparr>path = ''/a.md''\<rparr> (add \<lparr>path = ''/b.md''\<rparr> (add \<lparr>path = ''/a.md''\<rparr> init_docs))
     = [\<lparr>path = ''/a.md''\<rparr>, \<lparr>path = ''/b.md''\<rparr>]
 \<and> distinct (map path
       (add \<lparr>path = ''/a.md''\<rparr> (add \<lparr>path = ''/b.md''\<rparr> (add \<lparr>path = ''/a.md''\<rparr> init_docs))))"
proof -
  let ?s = "add \<lparr>path = ''/b.md''\<rparr> (add \<lparr>path = ''/a.md''\<rparr> init_docs)"
  have r: "reachable ?s"
    by (intro r_add r_init)
  have s: "?s = [\<lparr>path = ''/b.md''\<rparr>, \<lparr>path = ''/a.md''\<rparr>]"
    by (simp add: add_def init_docs_def slice0_def)
  have mem: "path \<lparr>path = ''/a.md''\<rparr> \<in> path ` set ?s"
    by (simp add: s)
  from add_bounded_unique_front [OF r, of "\<lparr>path = ''/a.md''\<rparr>"] mem r
  show ?thesis by (simp add: s)
qed

section \<open>TokenList: what \<open>handleKey\<close> emits\<close>

lemma all_dropWhile: "(\<forall>x\<in>set (dropWhile P xs). P x) \<longleftrightarrow> (\<forall>x\<in>set xs. P x)"
  by (induction xs) auto

lemma trim_Nil_iff: "trim s = [] \<longleftrightarrow> blank s"
  by (simp add: trim_def blank_def dropWhile_eq_Nil_conv list_all_iff all_dropWhile)

lemma trim_ends:
  assumes "trim s \<noteq> []"
  shows "\<not> is_js_space (hd (trim s)) \<and> \<not> is_js_space (last (trim s))"
proof -
  let ?a = "dropWhile is_js_space s"
  let ?b = "dropWhile is_js_space (rev ?a)"
  from assms have b: "?b \<noteq> []" by (simp add: trim_def)
  then have hb: "\<not> is_js_space (hd ?b)" by (rule hd_dropWhile)
  have a: "?a \<noteq> []"
  proof
    assume e: "?a = []"
    have "?b = []" unfolding e by simp
    with b show False by (simp only:)
  qed
  then have ha: "\<not> is_js_space (hd ?a)" by (rule hd_dropWhile)
  have "rev ?a = takeWhile is_js_space (rev ?a) @ ?b" by simp
  then have "?a = rev ?b @ rev (takeWhile is_js_space (rev ?a))"
    by (metis rev_append rev_rev_ident)
  with b have "hd ?a = hd (rev ?b)" by (metis hd_append2 rev_is_Nil_conv)
  with ha hb b show ?thesis
    by (simp add: trim_def last_rev)
qed

lemma trim_not_blank: "trim s \<noteq> [] \<Longrightarrow> \<not> blank (trim s)"
proof
  assume ne: "trim s \<noteq> []" and bl: "blank (trim s)"
  from ne have "hd (trim s) \<in> set (trim s)" by simp
  with bl have "is_js_space (hd (trim s))" by (simp add: blank_def list_all_iff)
  with trim_ends [OF ne] show False by simp
qed

lemma handleKey_no_emit:
  "trim inputValue = [] \<or> trim inputValue \<in> set val \<or>
     code \<notin> {''Space'', ''Enter'', ''Comma'', ''Tab''} \<Longrightarrow>
   fst (handleKey val inputValue code) = None"
  by (auto simp: handleKey_def)

lemma handleKey_emit:
  "trim inputValue \<noteq> [] \<Longrightarrow> trim inputValue \<notin> set val \<Longrightarrow>
     code \<in> {''Space'', ''Enter'', ''Comma'', ''Tab''} \<Longrightarrow>
   handleKey val inputValue code = (Some (val @ [trim inputValue]), [])"
  by (auto simp: handleKey_def)

text \<open>
  C10, as the component behaves. \<open>handleKey\<close> never adds a duplicate or a token of
  white space only. For every current list and input text: when the trimmed text is
  empty or already in the list nothing is emitted, so the list stays as it is; on a
  Space, Enter, Comma or Tab key with any other text the emitted list is the old list
  followed by the trimmed text. Whatever is emitted is the old list plus one token
  that is neither blank nor already present, so the emitted list has a duplicate or a
  blank token only where the current list had one.
\<close>

theorem handleKey_appends_fresh_token:
  "(trim inputValue = [] \<or> trim inputValue \<in> set val \<longrightarrow>
      fst (handleKey val inputValue code) = None)
 \<and> (trim inputValue \<noteq> [] \<and> trim inputValue \<notin> set val
      \<and> code \<in> {''Space'', ''Enter'', ''Comma'', ''Tab''} \<longrightarrow>
      fst (handleKey val inputValue code) = Some (val @ [trim inputValue]))
 \<and> (\<forall>arr. fst (handleKey val inputValue code) = Some arr \<longrightarrow>
        arr = val @ [trim inputValue]
      \<and> \<not> blank (trim inputValue)
      \<and> trim inputValue \<notin> set val
      \<and> (distinct val \<longrightarrow> distinct arr)
      \<and> ((\<forall>t\<in>set val. \<not> blank t) \<longrightarrow> (\<forall>t\<in>set arr. \<not> blank t)))"
proof (intro conjI impI allI)
  assume "trim inputValue = [] \<or> trim inputValue \<in> set val"
  then show "fst (handleKey val inputValue code) = None"
    by (auto simp: handleKey_def)
next
  assume "trim inputValue \<noteq> [] \<and> trim inputValue \<notin> set val
        \<and> code \<in> {''Space'', ''Enter'', ''Comma'', ''Tab''}"
  then show "fst (handleKey val inputValue code) = Some (val @ [trim inputValue])"
    by (auto simp: handleKey_def)
next
  fix arr
  assume em: "fst (handleKey val inputValue code) = Some arr"
  then have ne: "trim inputValue \<noteq> []" and fresh: "trim inputValue \<notin> set val"
    and arr: "arr = val @ [trim inputValue]"
    by (auto simp: handleKey_def split: if_splits)
  from trim_not_blank [OF ne] have nb: "\<not> blank (trim inputValue)" .
  show "arr = val @ [trim inputValue]" by (rule arr)
  show "\<not> blank (trim inputValue)" by (rule nb)
  show "trim inputValue \<notin> set val" by (rule fresh)
  show "distinct arr" if "distinct val"
    using that fresh by (simp add: arr)
  show "\<forall>t\<in>set arr. \<not> blank t" if "\<forall>t\<in>set val. \<not> blank t"
    using that nb by (simp add: arr)
qed

theorem handleKey_appends_fresh_token_witness:
  "trim [32, 98, 32] = [98]
 \<and> fst (handleKey [[97]] [32, 98, 32] ''Enter'') = Some [[97], [98]]
 \<and> distinct [[97], [98 :: nat]]
 \<and> \<not> blank [97] \<and> \<not> blank [98]
 \<and> fst (handleKey [[97]] [32, 97] ''Enter'') = None"
proof -
  have t: "trim [32, 98, 32] = [98]" and t': "trim [32, 97] = [97]"
    by (simp_all add: trim_def is_js_space_def)
  have nb: "\<not> blank [97]" "\<not> blank [98]"
    by (simp_all add: blank_def is_js_space_def)
  have k: "''Enter'' \<in> {''Space'', ''Enter'', ''Comma'', ''Tab''}" by simp
  have f: "[98] \<notin> set [[97 :: nat]]" by simp
  from handleKey_appends_fresh_token [of "[32, 98, 32]" "[[97]]" "''Enter''",
      THEN conjunct2, THEN conjunct1, unfolded t] k f
  have e1: "fst (handleKey [[97]] [32, 98, 32] ''Enter'') = Some ([[97]] @ [[98]])"
    by blast
  have m: "[97] \<in> set [[97 :: nat]]" by simp
  from handleKey_appends_fresh_token [of "[32, 97]" "[[97]]" "''Enter''",
      THEN conjunct1, unfolded t'] m
  have e2: "fst (handleKey [[97]] [32, 97] ''Enter'') = None"
    by blast
  from handleKey_appends_fresh_token [of "[32, 98, 32]" "[[97]]" "''Enter''",
      THEN conjunct2, THEN conjunct2, unfolded t, rule_format, OF e1]
  have d: "distinct ([[97]] @ [[98 :: nat]])" by simp
  from t e1 e2 nb d show ?thesis by simp
qed

text \<open>
  The list handed in is emitted again with the new token behind it, whatever it holds:
  a current list with a repeated token, or with a token of one space, comes back with
  that token still in it.
\<close>

theorem handleKey_keeps_old_duplicates:
  "fst (handleKey [[97], [97]] [98] ''Enter'') = Some [[97], [97], [98]]
 \<and> \<not> distinct [[97], [97], [98 :: nat]]
 \<and> fst (handleKey [[32]] [98] ''Enter'') = Some [[32], [98]]
 \<and> blank [32]"
proof -
  have t: "trim [98] = [98]" by (simp add: trim_def is_js_space_def)
  have "fst (handleKey [[97], [97]] [98] ''Enter'') = Some [[97], [97], [98]]"
    by (simp add: handleKey_def t)
  moreover have "fst (handleKey [[32]] [98] ''Enter'') = Some [[32], [98]]"
    by (simp add: handleKey_def t)
  moreover have "blank [32]" by (simp add: blank_def is_js_space_def)
  ultimately show ?thesis by simp
qed

section \<open>The cache and \<open>check\<close>\<close>

lemma check_hit:
  "c (saneTerm t) = Some b \<Longrightarrow> check d c t = (b, c, [])"
  by (simp add: check_def)

lemma check_not_ready:
  "c (saneTerm t) = None \<Longrightarrow> d (saneTerm t) = None \<Longrightarrow>
     check d c t = (True, c, [saneTerm t])"
  by (simp add: check_def)

lemma check_definite:
  "c (saneTerm t) = None \<Longrightarrow> d (saneTerm t) = Some b \<Longrightarrow>
     check d c t = (b, c(saneTerm t \<mapsto> b), [saneTerm t])"
  by (simp add: check_def)

lemma saneTerm_foo: "saneTerm (js ''foo'') = js ''foo''"
  by (simp add: saneTerm_def js_def smart_quotes_def)

lemma saneTerm_mispelled: "saneTerm (js ''mispelled'') = js ''mispelled''"
  by (simp add: saneTerm_def js_def smart_quotes_def)

text \<open>
  C2. When the cache has no entry for the term and the dictionary provider answers
  \<open>undefined\<close>, \<open>check\<close> returns true and leaves the cache as it was, so that a second
  \<open>check\<close> of the term sends the term to the dictionary provider again, whatever the
  dictionary's state is by then. When the provider answers a boolean, \<open>check\<close> returns
  it and stores it: the next \<open>check\<close> of the term returns it from the cache without a
  query.
\<close>

theorem check_fail_open_not_cached:
  "(c (saneTerm t) = None \<and> d (saneTerm t) = None \<longrightarrow>
      fst (check d c t) = True
    \<and> fst (snd (check d c t)) = c
    \<and> snd (snd (check d c t)) = [saneTerm t]
    \<and> (\<forall>d'. snd (snd (check d' (fst (snd (check d c t))) t)) = [saneTerm t]))
 \<and> (\<forall>b. c (saneTerm t) = None \<and> d (saneTerm t) = Some b \<longrightarrow>
      fst (check d c t) = b
    \<and> fst (snd (check d c t)) = c(saneTerm t \<mapsto> b)
    \<and> snd (snd (check d c t)) = [saneTerm t]
    \<and> (\<forall>d'. check d' (fst (snd (check d c t))) t
             = (b, fst (snd (check d c t)), [])))"
proof (intro conjI allI impI)
  assume a: "c (saneTerm t) = None \<and> d (saneTerm t) = None"
  then have e: "check d c t = (True, c, [saneTerm t])"
    by (simp add: check_not_ready)
  show "fst (check d c t) = True" by (simp add: e)
  show "fst (snd (check d c t)) = c" by (simp add: e)
  show "snd (snd (check d c t)) = [saneTerm t]" by (simp add: e)
  fix d' :: dictionary
  from a show "snd (snd (check d' (fst (snd (check d c t))) t)) = [saneTerm t]"
    by (cases "d' (saneTerm t)") (simp_all add: e check_def)
next
  fix b assume a: "c (saneTerm t) = None \<and> d (saneTerm t) = Some b"
  then have e: "check d c t = (b, c(saneTerm t \<mapsto> b), [saneTerm t])"
    by (simp add: check_definite)
  show "fst (check d c t) = b" by (simp add: e)
  show "fst (snd (check d c t)) = c(saneTerm t \<mapsto> b)" by (simp add: e)
  show "snd (snd (check d c t)) = [saneTerm t]" by (simp add: e)
  fix d' :: dictionary
  show "check d' (fst (snd (check d c t))) t = (b, fst (snd (check d c t)), [])"
    by (simp add: e check_hit)
qed

theorem check_fail_open_not_cached_witness:
  "empty_cache (saneTerm (js ''foo'')) = None
 \<and> check not_ready empty_cache (js ''foo'') = (True, empty_cache, [js ''foo''])
 \<and> snd (snd (check rejects_all empty_cache (js ''foo''))) = [js ''foo'']
 \<and> fst (check rejects_all empty_cache (js ''foo'')) = False
 \<and> fst (snd (check rejects_all empty_cache (js ''foo''))) (js ''foo'') = Some False"
proof -
  have miss: "empty_cache (saneTerm (js ''foo'')) = None" by (simp add: empty_cache_def)
  have a: "fst (check not_ready empty_cache (js ''foo'')) = True
    \<and> fst (snd (check not_ready empty_cache (js ''foo''))) = empty_cache
    \<and> snd (snd (check not_ready empty_cache (js ''foo''))) = [saneTerm (js ''foo'')]
    \<and> (\<forall>d'. snd (snd (check d' (fst (snd (check not_ready empty_cache (js ''foo'')))) (js ''foo'')))
           = [saneTerm (js ''foo'')])"
    by (rule check_fail_open_not_cached [THEN conjunct1, rule_format])
       (simp add: empty_cache_def not_ready_def)
  note a' = a [unfolded saneTerm_foo]
  from a' have e1: "check not_ready empty_cache (js ''foo'') = (True, empty_cache, [js ''foo''])"
    by (simp add: prod_eq_iff)
  from a' have "snd (snd (check rejects_all
        (fst (snd (check not_ready empty_cache (js ''foo'')))) (js ''foo''))) = [js ''foo'']"
    by blast
  then have e2: "snd (snd (check rejects_all empty_cache (js ''foo''))) = [js ''foo'']"
    by (simp add: e1)
  have b: "fst (check rejects_all empty_cache (js ''foo'')) = False
    \<and> fst (snd (check rejects_all empty_cache (js ''foo'')))
        = empty_cache(saneTerm (js ''foo'') \<mapsto> False)
    \<and> snd (snd (check rejects_all empty_cache (js ''foo''))) = [saneTerm (js ''foo'')]
    \<and> (\<forall>d'. check d' (fst (snd (check rejects_all empty_cache (js ''foo'')))) (js ''foo'')
           = (False, fst (snd (check rejects_all empty_cache (js ''foo''))), []))"
    by (rule check_fail_open_not_cached [THEN conjunct2, rule_format])
       (simp add: empty_cache_def rejects_all_def)
  then have e3: "fst (check rejects_all empty_cache (js ''foo'')) = False"
    and e4: "fst (snd (check rejects_all empty_cache (js ''foo''))) (js ''foo'') = Some False"
    by (simp_all add: saneTerm_foo)
  from miss e1 e2 e3 e4 show ?thesis by blast
qed

text \<open>
  C3. On the command \<open>invalidate-dict\<close> the listener leaves the empty cache, whatever the
  cache held, and the next \<open>check\<close> of any term sends the term to the dictionary
  provider and returns the provider's answer (true when it is not ready); so does a
  term for which false was cached.
\<close>

theorem invalidate_drops_every_entry:
  "on_dictionary_provider ''invalidate-dict'' c = Map.empty
 \<and> dom (on_dictionary_provider ''invalidate-dict'' c) = {}
 \<and> snd (snd (check d (on_dictionary_provider ''invalidate-dict'' c) t)) = [saneTerm t]
 \<and> fst (check d (on_dictionary_provider ''invalidate-dict'' c) t)
      = (case d (saneTerm t) of None \<Rightarrow> True | Some b \<Rightarrow> b)
 \<and> check accepts_all [js ''mispelled'' \<mapsto> False] (js ''mispelled'')
      = (False, [js ''mispelled'' \<mapsto> False], [])
 \<and> check accepts_all
      (on_dictionary_provider ''invalidate-dict'' [js ''mispelled'' \<mapsto> False]) (js ''mispelled'')
      = (True, [js ''mispelled'' \<mapsto> True], [js ''mispelled''])"
proof -
  note n = saneTerm_mispelled
  have "snd (snd (check d (on_dictionary_provider ''invalidate-dict'' c) t)) = [saneTerm t]"
    by (cases "d (saneTerm t)") (simp_all add: check_def on_dictionary_provider_def)
  moreover have "fst (check d (on_dictionary_provider ''invalidate-dict'' c) t)
      = (case d (saneTerm t) of None \<Rightarrow> True | Some b \<Rightarrow> b)"
    by (cases "d (saneTerm t)") (simp_all add: check_def on_dictionary_provider_def)
  moreover have "check accepts_all [js ''mispelled'' \<mapsto> False] (js ''mispelled'')
      = (False, [js ''mispelled'' \<mapsto> False], [])"
    by (simp add: check_def n)
  moreover have "check accepts_all
      (on_dictionary_provider ''invalidate-dict'' [js ''mispelled'' \<mapsto> False]) (js ''mispelled'')
      = (True, [js ''mispelled'' \<mapsto> True], [js ''mispelled''])"
    by (simp add: check_def n on_dictionary_provider_def accepts_all_def)
  ultimately show ?thesis by (simp add: on_dictionary_provider_def)
qed

section \<open>What a call of \<open>token\<close> consumes\<close>

declare tokens.simps [simp del]

lemma stream_match_le: "stream_match re rest = Some n \<Longrightarrow> n \<le> length rest"
  by (auto simp: stream_match_def)

lemma escape_regex_empty: "escape_regex s = [] \<longleftrightarrow> s = []"
  by (cases s) (auto simp: escape_regex_def)

lemma zknLinkRE_bounds:
  assumes "zknLinkRE ls le rest = Some m"
  shows "prefix ls rest \<and> length ls < m \<and> length ls < length rest"
proof -
  from assms have p: "prefix ls rest" by (simp add: zknLinkRE_def split: if_splits)
  from assms p obtain c cs where d: "drop (length ls) rest = c # cs"
    by (cases "drop (length ls) rest") (simp_all add: zknLinkRE_def)
  then have "length ls < length rest" by (cases "length ls < length rest") simp_all
  moreover from assms p d have "length ls < m"
    by (auto simp: zknLinkRE_def split: if_splits)
  ultimately show ?thesis using p by simp
qed

lemma link_match_bounds:
  assumes "link_match cfg rest = Some n"
  shows "0 < n \<and> n \<le> length rest"
proof -
  from assms have sm: "stream_match (zknLinkRE (linkStart cfg) (linkEnd cfg)) rest = Some n"
    by (simp add: link_match_def split: if_splits)
  then obtain m where m: "zknLinkRE (linkStart cfg) (linkEnd cfg) rest = Some m"
    and n: "n = min m (length rest)"
    by (auto simp: stream_match_def)
  from zknLinkRE_bounds [OF m] n show ?thesis by auto
qed

lemma special_kinds:
  assumes "special cfg rest = Some (k, n)"
  shows "k \<in> {Link, Tag, Code, FootnoteRef} \<and> n \<le> length rest"
proof -
  from assms consider "link_match cfg rest = Some n" "k = Link"
    | "stream_match (zknTagRE cfg) rest = Some n" "k = Tag"
    | "stream_match (codeRE cfg) rest = Some n" "k = Code"
    | "stream_match (footnoteRefRE cfg) rest = Some n" "k = FootnoteRef"
    by (auto simp: special_def split: option.splits)
  then show ?thesis
    by cases (simp_all add: link_match_bounds stream_match_le)
qed

lemma stream_match_advances:
  "re rest \<noteq> Some 0 \<Longrightarrow> rest \<noteq> [] \<Longrightarrow> stream_match re rest = Some n \<Longrightarrow> 0 < n"
  by (auto simp: stream_match_def)

lemma special_advances:
  assumes "never_empty cfg" "rest \<noteq> []" "special cfg rest = Some (k, n)"
  shows "0 < n"
proof -
  from assms(3) consider "link_match cfg rest = Some n"
    | "stream_match (zknTagRE cfg) rest = Some n"
    | "stream_match (codeRE cfg) rest = Some n"
    | "stream_match (footnoteRefRE cfg) rest = Some n"
    by (auto simp: special_def split: option.splits)
  then show ?thesis
  proof cases
    case 1
    then show ?thesis by (simp add: link_match_bounds)
  next
    case 2
    from assms(1) have "zknTagRE cfg rest \<noteq> Some 0" by (simp add: never_empty_def)
    from stream_match_advances [OF this assms(2) 2] show ?thesis .
  next
    case 3
    from assms(1) have "codeRE cfg rest \<noteq> Some 0" by (simp add: never_empty_def)
    from stream_match_advances [OF this assms(2) 3] show ?thesis .
  next
    case 4
    from assms(1) have "footnoteRefRE cfg rest \<noteq> Some 0" by (simp add: never_empty_def)
    from stream_match_advances [OF this assms(2) 4] show ?thesis .
  qed
qed

lemma token_special:
  "special cfg (drop start line) = Some (k, n) \<Longrightarrow>
     token cfg d c line start = ((Some k, None, start + n), c, [])"
  by (simp add: token_def Let_def)

lemma token_delim:
  "special cfg (drop start line) = None \<Longrightarrow> start < length line \<Longrightarrow>
   line ! start \<in> set delim \<Longrightarrow>
     token cfg d c line start = ((None, None, Suc start), c, [])"
  by (simp add: token_def Let_def hd_drop_conv_nth)

lemma token_number:
  "special cfg (drop start line) = None \<Longrightarrow> start < length line \<Longrightarrow>
   line ! start \<notin> set delim \<Longrightarrow>
   has_digit (takeWhile (\<lambda>ch. ch \<notin> set delim) (drop start line)) \<Longrightarrow>
     token cfg d c line start =
       ((Some Number, None, start + length (takeWhile (\<lambda>ch. ch \<notin> set delim) (drop start line))),
        c, [])"
  by (simp add: token_def Let_def hd_drop_conv_nth)

lemma token_url:
  "special cfg (drop start line) = None \<Longrightarrow> start < length line \<Longrightarrow>
   line ! start \<notin> set delim \<Longrightarrow>
   \<not> has_digit (takeWhile (\<lambda>ch. ch \<notin> set delim) (drop start line)) \<Longrightarrow>
   is_link (takeWhile (\<lambda>ch. ch \<notin> set delim) (drop start line)) \<Longrightarrow>
     token cfg d c line start =
       ((Some URL, None,
         start + length (takeWhile (\<lambda>ch. ch \<notin> set delim) (drop start line))
         + length (takeWhile (\<lambda>ch. ch \<noteq> 0x20)
             (drop (start + length (takeWhile (\<lambda>ch. ch \<notin> set delim) (drop start line))) line))),
        c, [])"
  by (simp add: token_def Let_def hd_drop_conv_nth)

lemma token_word:
  "special cfg (drop start line) = None \<Longrightarrow> start < length line \<Longrightarrow>
   line ! start \<notin> set delim \<Longrightarrow>
   \<not> has_digit (takeWhile (\<lambda>ch. ch \<notin> set delim) (drop start line)) \<Longrightarrow>
   \<not> is_link (takeWhile (\<lambda>ch. ch \<notin> set delim) (drop start line)) \<Longrightarrow>
     token cfg d c line start =
       ((Some Word,
         if fst (check d c (unquote (takeWhile (\<lambda>ch. ch \<notin> set delim) (drop start line))))
         then None else Some ''spell-error'',
         start + length (takeWhile (\<lambda>ch. ch \<notin> set delim) (drop start line))),
        snd (check d c (unquote (takeWhile (\<lambda>ch. ch \<notin> set delim) (drop start line)))))"
  by (simp add: token_def Let_def hd_drop_conv_nth case_prod_beta)

lemma token_cases [consumes 1, case_names special delim number url word]:
  assumes lt: "start < length line"
  obtains
    (special) k n where "special cfg (drop start line) = Some (k, n)"
      and "token cfg d c line start = ((Some k, None, start + n), c, [])"
  | (delim) "special cfg (drop start line) = None" and "line ! start \<in> set delim"
      and "token cfg d c line start = ((None, None, Suc start), c, [])"
  | (number) w where "w = takeWhile (\<lambda>ch. ch \<notin> set delim) (drop start line)"
      and "special cfg (drop start line) = None" and "line ! start \<notin> set delim"
      and "has_digit w"
      and "token cfg d c line start = ((Some Number, None, start + length w), c, [])"
  | (url) w where "w = takeWhile (\<lambda>ch. ch \<notin> set delim) (drop start line)"
      and "special cfg (drop start line) = None" and "line ! start \<notin> set delim"
      and "\<not> has_digit w" and "is_link w"
      and "token cfg d c line start =
             ((Some URL, None,
               start + length w
               + length (takeWhile (\<lambda>ch. ch \<noteq> 0x20) (drop (start + length w) line))), c, [])"
  | (word) w where "w = takeWhile (\<lambda>ch. ch \<notin> set delim) (drop start line)"
      and "special cfg (drop start line) = None" and "line ! start \<notin> set delim"
      and "\<not> has_digit w" and "\<not> is_link w"
      and "token cfg d c line start =
             ((Some Word, if fst (check d c (unquote w)) then None else Some ''spell-error'',
               start + length w),
              snd (check d c (unquote w)))"
proof (cases "special cfg (drop start line)")
  case (Some kn)
  then obtain k n where s: "special cfg (drop start line) = Some (k, n)" by (cases kn) simp
  show ?thesis by (rule special [OF s token_special [OF s]])
next
  case None
  show ?thesis
  proof (cases "line ! start \<in> set delim")
    case True
    show ?thesis by (rule delim [OF None True token_delim [OF None lt True]])
  next
    case nd: False
    define w where "w = takeWhile (\<lambda>ch. ch \<notin> set delim) (drop start line)"
    show ?thesis
    proof (cases "has_digit w")
      case True
      with token_number [OF None lt nd, of d c] show ?thesis
        unfolding w_def [symmetric] by (intro number [OF w_def None nd]) simp_all
    next
      case hd: False
      show ?thesis
      proof (cases "is_link w")
        case True
        with hd token_url [OF None lt nd, of d c] show ?thesis
          unfolding w_def [symmetric] by (intro url [OF w_def None nd]) simp_all
      next
        case False
        with hd token_word [OF None lt nd, of d c] show ?thesis
          unfolding w_def [symmetric] by (intro word [OF w_def None nd]) simp_all
      qed
    qed
  qed
qed

lemma word_run:
  assumes "start < length line" "line ! start \<notin> set delim"
  defines "w \<equiv> takeWhile (\<lambda>ch. ch \<notin> set delim) (drop start line)"
  shows "0 < length w" and "start + length w \<le> length line"
    and "take (length w) (drop start line) = w"
proof -
  from assms(1) have "drop start line = line ! start # drop (Suc start) line"
    by (simp add: Cons_nth_drop_Suc)
  with assms(2) show "0 < length w" by (simp add: w_def)
  have "length w \<le> length (drop start line)" unfolding w_def by (rule length_takeWhile_le)
  with assms(1) show "start + length w \<le> length line" by simp
  show "take (length w) (drop start line) = w"
    unfolding w_def by (rule takeWhile_eq_take [symmetric])
qed

lemma token_facts:
  assumes lt: "start < length line"
    and tk: "token cfg d c line start = ((k, style, pos), c', q)"
  shows "pos \<le> length line"
    and "k = None \<Longrightarrow> pos = Suc start \<and> line ! start \<in> set delim"
    and "k = Some Word \<or> k = Some Number \<Longrightarrow>
           start < pos
         \<and> take (pos - start) (drop start line)
             = takeWhile (\<lambda>ch. ch \<notin> set delim) (drop start line)"
    and "k \<noteq> Some Word \<Longrightarrow> c' = c \<and> q = [] \<and> style = None"
    and "k \<in> Some ` {Link, Tag, Code, FootnoteRef} \<Longrightarrow>
           special cfg (drop start line) = Some (the k, pos - start)"
    and "k \<notin> Some ` {Link, Tag, Code, FootnoteRef} \<Longrightarrow>
           special cfg (drop start line) = None \<and> start < pos"
proof -
  have "pos \<le> length line
    \<and> (k = None \<longrightarrow> pos = Suc start \<and> line ! start \<in> set delim)
    \<and> (k = Some Word \<or> k = Some Number \<longrightarrow>
           start < pos
         \<and> take (pos - start) (drop start line)
             = takeWhile (\<lambda>ch. ch \<notin> set delim) (drop start line))
    \<and> (k \<noteq> Some Word \<longrightarrow> c' = c \<and> q = [] \<and> style = None)
    \<and> (k \<in> Some ` {Link, Tag, Code, FootnoteRef} \<longrightarrow>
           special cfg (drop start line) = Some (the k, pos - start))
    \<and> (k \<notin> Some ` {Link, Tag, Code, FootnoteRef} \<longrightarrow>
           special cfg (drop start line) = None \<and> start < pos)"
  using lt
  proof (cases rule: token_cases [of start line cfg d c])
    case (special k0 n)
    from special_kinds [OF special(1)] lt special(2) tk show ?thesis
      using special(1) by auto
  next
    case delim
    with tk lt show ?thesis by auto
  next
    case (number w)
    from word_run [OF lt number(3)] number tk show ?thesis by auto
  next
    case (url w)
    have "length (takeWhile (\<lambda>ch. ch \<noteq> 0x20) (drop (start + length w) line))
            \<le> length (drop (start + length w) line)"
      by (rule length_takeWhile_le)
    with word_run [OF lt url(3)] url tk show ?thesis by auto
  next
    case (word w)
    from word_run [OF lt word(3)] word tk show ?thesis by (auto simp: prod_eq_iff)
  qed
  then show "pos \<le> length line"
    and "k = None \<Longrightarrow> pos = Suc start \<and> line ! start \<in> set delim"
    and "k = Some Word \<or> k = Some Number \<Longrightarrow>
           start < pos
         \<and> take (pos - start) (drop start line)
             = takeWhile (\<lambda>ch. ch \<notin> set delim) (drop start line)"
    and "k \<noteq> Some Word \<Longrightarrow> c' = c \<and> q = [] \<and> style = None"
    and "k \<in> Some ` {Link, Tag, Code, FootnoteRef} \<Longrightarrow>
           special cfg (drop start line) = Some (the k, pos - start)"
    and "k \<notin> Some ` {Link, Tag, Code, FootnoteRef} \<Longrightarrow>
           special cfg (drop start line) = None \<and> start < pos"
    by blast+
qed

lemma token_advances:
  assumes "never_empty cfg" "start < length line"
    and "token cfg d c line start = ((k, style, pos), c', q)"
  shows "start < pos"
proof (cases "k \<in> Some ` {Link, Tag, Code, FootnoteRef}")
  case True
  from token_facts(5) [OF assms(2,3) True]
  have s: "special cfg (drop start line) = Some (the k, pos - start)" .
  from assms(2) have "drop start line \<noteq> []" by simp
  from special_advances [OF assms(1) this s] show ?thesis by simp
next
  case False
  from token_facts(6) [OF assms(2,3) False] show ?thesis by simp
qed

section \<open>The calls of \<open>token\<close> along a line\<close>

lemma tokens_end: "length line \<le> pos \<Longrightarrow> tokens cfg d c line pos = (Some [], c, [])"
  by (simp add: tokens.simps)

lemma tokens_stuck:
  "pos < length line \<Longrightarrow> token cfg d c line pos = ((k, style, pos'), c1, q1) \<Longrightarrow>
   pos' \<le> pos \<Longrightarrow> tokens cfg d c line pos = (None, c1, q1)"
  by (subst tokens.simps) simp

lemma tokens_step:
  "pos < length line \<Longrightarrow> token cfg d c line pos = ((k, style, pos'), c1, q1) \<Longrightarrow>
   pos < pos' \<Longrightarrow>
     tokens cfg d c line pos =
       (map_option
          (\<lambda>ss. (case k of None \<Rightarrow> [] | Some kd \<Rightarrow> [span_of line pos kd style pos']) @ ss)
          (fst (tokens cfg d c1 line pos')),
        fst (snd (tokens cfg d c1 line pos')),
        q1 @ snd (snd (tokens cfg d c1 line pos')))"
  by (subst tokens.simps) (simp add: case_prod_beta split: option.split)

lemma tokens_induct [case_names finished stuck step]:
  assumes "\<And>pos c. length line \<le> pos \<Longrightarrow> P pos c"
    and "\<And>pos c k style pos' c1 q1. pos < length line \<Longrightarrow>
           token cfg d c line pos = ((k, style, pos'), c1, q1) \<Longrightarrow> pos' \<le> pos \<Longrightarrow> P pos c"
    and "\<And>pos c k style pos' c1 q1. pos < length line \<Longrightarrow>
           token cfg d c line pos = ((k, style, pos'), c1, q1) \<Longrightarrow> pos < pos' \<Longrightarrow>
           pos' \<le> length line \<Longrightarrow> P pos' c1 \<Longrightarrow> P pos c"
  shows "P pos c"
proof (induction "length line - pos" arbitrary: pos c rule: less_induct)
  case (less pos c)
  show ?case
  proof (cases "length line \<le> pos")
    case True
    then show ?thesis by (rule assms(1))
  next
    case False
    then have lt: "pos < length line" by simp
    obtain k style pos' c1 q1 where tk: "token cfg d c line pos = ((k, style, pos'), c1, q1)"
      by (cases "token cfg d c line pos") auto
    show ?thesis
    proof (cases "pos' \<le> pos")
      case True
      from lt tk True show ?thesis by (rule assms(2))
    next
      case adv: False
      from token_facts(1) [OF lt tk] have le: "pos' \<le> length line" .
      from adv lt have "length line - pos' < length line - pos" by simp
      then have "P pos' c1" by (rule less)
      with lt tk adv le show ?thesis by (intro assms(3) [of pos c k style pos' c1 q1]) simp_all
    qed
  qed
qed

lemma tokens_Some_step:
  assumes "pos < length line" "token cfg d c line pos = ((k, style, pos'), c1, q1)"
    and "pos < pos'" "fst (tokens cfg d c line pos) = Some ss"
  obtains ss' where "fst (tokens cfg d c1 line pos') = Some ss'"
    and "ss = (case k of None \<Rightarrow> [] | Some kd \<Rightarrow> [span_of line pos kd style pos']) @ ss'"
  using assms(4) by (auto simp: tokens_step [OF assms(1-3)])

lemma tokens_total:
  assumes "never_empty cfg"
  shows "\<exists>ss. fst (tokens cfg d c line pos) = Some ss"
proof (induction pos c rule: tokens_induct [of line _ cfg d])
  case (finished pos c)
  then show ?case by (simp add: tokens_end)
next
  case (stuck pos c k style pos' c1 q1)
  from token_advances [OF assms stuck(1,2)] stuck(3) show ?case by simp
next
  case (step pos c k style pos' c1 q1)
  then show ?case by (auto simp: tokens_step [OF step(1-3)])
qed

text \<open>The definitions by which a line of the examples is evaluated.\<close>

lemmas eval_simps =
  annotate_def tokenize_def tokens.simps token_def special_def link_match_def stream_match_def
  zknLinkRE_def escape_regex_def example_config_def tag_pattern_def js_def delim_def
  has_digit_def is_link_def unquote_def allQuotes_def check_def saneTerm_def smart_quotes_def
  span_of_def accepts_all_def rejects_all_def not_ready_def empty_cache_def example_line_def
  Let_def dot_def scan_def

section \<open>The spans of a line\<close>

lemma ordered_from_mono: "ordered_from a ss \<Longrightarrow> b \<le> a \<Longrightarrow> ordered_from b ss"
  by (cases ss) auto

lemma tokens_spans:
  "fst (tokens cfg d c line pos) = Some ss \<Longrightarrow>
   \<forall>s \<in> set ss.
      pos \<le> startOffset s \<and> startOffset s < endOffset s \<and> endOffset s \<le> length line
    \<and> span_text s = take (endOffset s - startOffset s) (drop (startOffset s) line)"
proof (induction pos c arbitrary: ss rule: tokens_induct [of line _ cfg d])
  case (finished pos c)
  then show ?case by (simp add: tokens_end)
next
  case (stuck pos c k style pos' c1 q1)
  from stuck(4) show ?case by (simp add: tokens_stuck [OF stuck(1-3)])
next
  case (step pos c k style pos' c1 q1)
  from step(1,2,3,6) obtain ss' where s': "fst (tokens cfg d c1 line pos') = Some ss'"
    and ss: "ss = (case k of None \<Rightarrow> [] | Some kd \<Rightarrow> [span_of line pos kd style pos']) @ ss'"
    by (rule tokens_Some_step)
  from step(5) [OF s'] step(3)
  have "\<forall>s \<in> set ss'.
      pos \<le> startOffset s \<and> startOffset s < endOffset s \<and> endOffset s \<le> length line
    \<and> span_text s = take (endOffset s - startOffset s) (drop (startOffset s) line)"
    by auto
  moreover from step(3,4)
  have "\<forall>s \<in> set (case k of None \<Rightarrow> [] | Some kd \<Rightarrow> [span_of line pos kd style pos']).
      pos \<le> startOffset s \<and> startOffset s < endOffset s \<and> endOffset s \<le> length line
    \<and> span_text s = take (endOffset s - startOffset s) (drop (startOffset s) line)"
    by (cases k) (simp_all add: span_of_def)
  ultimately show ?case by (simp only: ss set_append ball_Un)
qed

lemma tokens_ordered:
  "fst (tokens cfg d c line pos) = Some ss \<Longrightarrow> ordered_from pos ss"
proof (induction pos c arbitrary: ss rule: tokens_induct [of line _ cfg d])
  case (finished pos c)
  then show ?case by (simp add: tokens_end)
next
  case (stuck pos c k style pos' c1 q1)
  from stuck(4) show ?case by (simp add: tokens_stuck [OF stuck(1-3)])
next
  case (step pos c k style pos' c1 q1)
  from step(1,2,3,6) obtain ss' where s': "fst (tokens cfg d c1 line pos') = Some ss'"
    and ss: "ss = (case k of None \<Rightarrow> [] | Some kd \<Rightarrow> [span_of line pos kd style pos']) @ ss'"
    by (rule tokens_Some_step)
  from step(5) [OF s'] have o: "ordered_from pos' ss'" .
  show ?case
  proof (cases k)
    case None
    with o step(3) ss show ?thesis by (simp add: ordered_from_mono)
  next
    case (Some kd)
    with o step(3) ss show ?thesis by (simp add: span_of_def)
  qed
qed

lemma covered_append: "covered (xs @ ys) i \<longleftrightarrow> covered xs i \<or> covered ys i"
  by (simp add: covered_def)

lemma covered_later:
  "\<forall>s \<in> set ss. a \<le> startOffset s \<Longrightarrow> i < a \<Longrightarrow> \<not> covered ss i"
  by (auto simp: covered_def list_ex_iff)

lemma tokens_not_before:
  "fst (tokens cfg d c line pos) = Some ss \<Longrightarrow> i < pos \<Longrightarrow> \<not> covered ss i"
  using tokens_spans [of cfg d c line pos ss] by (intro covered_later [of _ pos]) auto

lemma tokens_gaps:
  "fst (tokens cfg d c line pos) = Some ss \<Longrightarrow>
   pos \<le> i \<Longrightarrow> i < length line \<Longrightarrow> \<not> covered ss i \<Longrightarrow> line ! i \<in> set delim"
proof (induction pos c arbitrary: ss rule: tokens_induct [of line _ cfg d])
  case (finished pos c)
  then show ?case by simp
next
  case (stuck pos c k style pos' c1 q1)
  from stuck(4) show ?case by (simp add: tokens_stuck [OF stuck(1-3)])
next
  case (step pos c k style pos' c1 q1)
  from step(1,2,3,6) obtain ss' where s': "fst (tokens cfg d c1 line pos') = Some ss'"
    and ss: "ss = (case k of None \<Rightarrow> [] | Some kd \<Rightarrow> [span_of line pos kd style pos']) @ ss'"
    by (rule tokens_Some_step)
  from step(9) have nc1: "\<not> covered (case k of None \<Rightarrow> [] | Some kd \<Rightarrow> [span_of line pos kd style pos']) i"
    and nc2: "\<not> covered ss' i"
    by (simp_all add: ss covered_append)
  show ?case
  proof (cases "pos' \<le> i")
    case True
    from step(5) [OF s' True step(8) nc2] show ?thesis .
  next
    case False
    show ?thesis
    proof (cases k)
      case None
      with token_facts(2) [OF step(1,2)] have "pos' = Suc pos" "line ! pos \<in> set delim"
        by simp_all
      with False step(7) have "i = pos" by simp
      with \<open>line ! pos \<in> set delim\<close> show ?thesis by simp
    next
      case (Some kd)
      with nc1 have "i < pos \<or> pos' \<le> i" by (auto simp: covered_def span_of_def)
      with step(7) False show ?thesis by simp
    qed
  qed
qed

lemma upt_split3:
  assumes "a \<le> s" "s \<le> e" "e \<le> b"
  shows "[a..<b] = [a..<s] @ [s..<e] @ [e..<b]"
proof -
  from assms have "[a..<b] = [a..<s] @ [s..<b]"
    using upt_add_eq_append [of a s "b - s"] by simp
  moreover from assms have "[s..<b] = [s..<e] @ [e..<b]"
    using upt_add_eq_append [of s e "b - e"] by simp
  ultimately show ?thesis by simp
qed

lemma filter_interval:
  assumes "a \<le> s" "s \<le> e" "e \<le> b"
  shows "filter (\<lambda>i. s \<le> i \<and> i < e) [a..<b] = [s..<e]"
proof -
  have "filter (\<lambda>i. s \<le> i \<and> i < e) [a..<s] = []" by (auto simp: filter_empty_conv)
  moreover have "filter (\<lambda>i. s \<le> i \<and> i < e) [s..<e] = [s..<e]"
    by (auto simp: filter_id_conv)
  moreover have "filter (\<lambda>i. s \<le> i \<and> i < e) [e..<b] = []" by (auto simp: filter_empty_conv)
  ultimately show ?thesis by (simp add: upt_split3 [OF assms])
qed

lemma map_nth_interval:
  assumes "e \<le> length xs"
  shows "map ((!) xs) [s..<e] = take (e - s) (drop s xs)"
proof (rule nth_equalityI)
  show "length (map ((!) xs) [s..<e]) = length (take (e - s) (drop s xs))"
    using assms by simp
next
  fix i assume "i < length (map ((!) xs) [s..<e])"
  then have "i < e - s" by simp
  with assms show "map ((!) xs) [s..<e] ! i = take (e - s) (drop s xs) ! i"
    by simp
qed

lemma tokens_concat:
  "fst (tokens cfg d c line pos) = Some ss \<Longrightarrow>
   concat (map span_text ss) = map ((!) line) (filter (covered ss) [pos..<length line])"
proof (induction pos c arbitrary: ss rule: tokens_induct [of line _ cfg d])
  case (finished pos c)
  then show ?case by (simp add: tokens_end)
next
  case (stuck pos c k style pos' c1 q1)
  from stuck(4) show ?case by (simp add: tokens_stuck [OF stuck(1-3)])
next
  case (step pos c k style pos' c1 q1)
  let ?opt = "case k of None \<Rightarrow> [] | Some kd \<Rightarrow> [span_of line pos kd style pos']"
  from step(1,2,3,6) obtain ss' where s': "fst (tokens cfg d c1 line pos') = Some ss'"
    and ss: "ss = ?opt @ ss'"
    by (rule tokens_Some_step)
  have split: "[pos..<length line] = [pos..<pos'] @ [pos'..<length line]"
    using upt_split3 [of pos pos pos' "length line"] step(3,4) by simp
  have low: "filter (covered (?opt @ ss')) [pos..<pos'] = filter (covered ?opt) [pos..<pos']"
    by (rule filter_cong) (auto simp: covered_append tokens_not_before [OF s'])
  have high: "filter (covered (?opt @ ss')) [pos'..<length line]
            = filter (covered ss') [pos'..<length line]"
  proof (rule filter_cong)
    fix i assume "i \<in> set [pos'..<length line]"
    then have "pos' \<le> i" by simp
    then have "\<not> covered ?opt i" by (cases k) (simp_all add: covered_def span_of_def)
    then show "covered (?opt @ ss') i = covered ss' i" by (simp add: covered_append)
  qed simp
  have opt: "concat (map span_text ?opt) = map ((!) line) (filter (covered ?opt) [pos..<pos'])"
  proof (cases k)
    case None
    then show ?thesis by (simp add: covered_def)
  next
    case (Some kd)
    have "covered [span_of line pos kd style pos'] = (\<lambda>i. pos \<le> i \<and> i < pos')"
      by (rule ext) (simp add: covered_def span_of_def)
    then have "filter (covered [span_of line pos kd style pos']) [pos..<pos'] = [pos..<pos']"
      using filter_interval [of pos pos pos' pos'] step(3) by simp
    with Some step(4) show ?thesis by (simp add: map_nth_interval span_of_def)
  qed
  show ?case
    by (simp only: ss split filter_append map_append concat_append low high opt step(5) [OF s'])
qed

lemma drop_split:
  "pos \<le> pos' \<Longrightarrow> drop pos line = take (pos' - pos) (drop pos line) @ drop pos' line"
proof -
  assume "pos \<le> pos'"
  then have "drop pos' line = drop (pos' - pos) (drop pos line)" by simp
  then show ?thesis by (simp only: append_take_drop_id)
qed

lemma tokens_non_delimiters:
  "fst (tokens cfg d c line pos) = Some ss \<Longrightarrow>
   non_delimiters (concat (map span_text ss)) = non_delimiters (drop pos line)"
proof (induction pos c arbitrary: ss rule: tokens_induct [of line _ cfg d])
  case (finished pos c)
  then show ?case by (simp add: tokens_end non_delimiters_def)
next
  case (stuck pos c k style pos' c1 q1)
  from stuck(4) show ?case by (simp add: tokens_stuck [OF stuck(1-3)])
next
  case (step pos c k style pos' c1 q1)
  from step(1,2,3,6) obtain ss' where s': "fst (tokens cfg d c1 line pos') = Some ss'"
    and ss: "ss = (case k of None \<Rightarrow> [] | Some kd \<Rightarrow> [span_of line pos kd style pos']) @ ss'"
    by (rule tokens_Some_step)
  from step(5) [OF s']
  have ih: "non_delimiters (concat (map span_text ss')) = non_delimiters (drop pos' line)" .
  from step(3) have sp: "drop pos line = take (pos' - pos) (drop pos line) @ drop pos' line"
    by (intro drop_split) simp
  show ?case
  proof (cases k)
    case None
    with token_facts(2) [OF step(1,2)] have p: "pos' = Suc pos" and dl: "line ! pos \<in> set delim"
      by simp_all
    from step(1) have "drop pos line = line ! pos # drop (Suc pos) line"
      by (simp add: Cons_nth_drop_Suc)
    with dl have "non_delimiters (drop pos line) = non_delimiters (drop (Suc pos) line)"
      by (simp add: non_delimiters_def)
    with None ss ih p show ?thesis by simp
  next
    case (Some kd)
    have "non_delimiters (drop pos line)
        = non_delimiters (take (pos' - pos) (drop pos line)) @ non_delimiters (drop pos' line)"
      by (subst sp) (simp add: non_delimiters_def)
    with Some ss ih show ?thesis by (simp add: non_delimiters_def span_of_def)
  qed
qed

lemma tokens_plain:
  "fst (tokens cfg d c line pos) = Some ss \<Longrightarrow>
   \<forall>s \<in> set ss. kind s = Word \<or> kind s = Number \<longrightarrow>
      (\<forall>ch \<in> set (span_text s). ch \<notin> set delim)
    \<and> (endOffset s = length line \<or> line ! endOffset s \<in> set delim)"
proof (induction pos c arbitrary: ss rule: tokens_induct [of line _ cfg d])
  case (finished pos c)
  then show ?case by (simp add: tokens_end)
next
  case (stuck pos c k style pos' c1 q1)
  from stuck(4) show ?case by (simp add: tokens_stuck [OF stuck(1-3)])
next
  case (step pos c k style pos' c1 q1)
  let ?Q = "\<lambda>s. kind s = Word \<or> kind s = Number \<longrightarrow>
      (\<forall>ch \<in> set (span_text s). ch \<notin> set delim)
    \<and> (endOffset s = length line \<or> line ! endOffset s \<in> set delim)"
  from step(1,2,3,6) obtain ss' where s': "fst (tokens cfg d c1 line pos') = Some ss'"
    and ss: "ss = (case k of None \<Rightarrow> [] | Some kd \<Rightarrow> [span_of line pos kd style pos']) @ ss'"
    by (rule tokens_Some_step)
  from step(5) [OF s'] have ih: "\<forall>s \<in> set ss'. ?Q s" .
  have "\<forall>s \<in> set (case k of None \<Rightarrow> [] | Some kd \<Rightarrow> [span_of line pos kd style pos']). ?Q s"
  proof (cases k)
    case None
    then show ?thesis by simp
  next
    case (Some kd)
    have "?Q (span_of line pos kd style pos')"
    proof (intro impI)
      assume "kind (span_of line pos kd style pos') = Word
            \<or> kind (span_of line pos kd style pos') = Number"
      then have "k = Some Word \<or> k = Some Number" using Some by (simp add: span_of_def)
      from token_facts(3) [OF step(1,2) this]
      have tw: "take (pos' - pos) (drop pos line)
                  = takeWhile (\<lambda>ch. ch \<notin> set delim) (drop pos line)" by simp
      define w where "w = takeWhile (\<lambda>ch. ch \<notin> set delim) (drop pos line)"
      have "length w = length (take (pos' - pos) (drop pos line))" by (simp add: w_def tw)
      with step(3,4) have len: "length w = pos' - pos" by simp
      have a: "\<forall>ch \<in> set w. ch \<notin> set delim"
        unfolding w_def by (auto dest: set_takeWhileD)
      have b: "pos' = length line \<or> line ! pos' \<in> set delim"
      proof (cases "pos' = length line")
        case False
        with step(3,4) len have "length w < length (drop pos line)" by simp
        then have "\<not> (drop pos line ! length w) \<notin> set delim"
          unfolding w_def by (rule nth_length_takeWhile)
        with len step(3,4) False show ?thesis by simp
      qed simp
      from a b tw show "(\<forall>ch \<in> set (span_text (span_of line pos kd style pos')). ch \<notin> set delim)
        \<and> (endOffset (span_of line pos kd style pos') = length line
           \<or> line ! endOffset (span_of line pos kd style pos') \<in> set delim)"
        by (simp add: span_of_def w_def)
    qed
    with Some show ?thesis by simp
  qed
  with ih show ?case by (simp only: ss set_append ball_Un)
qed

lemma tokens_kinds:
  "fst (tokens cfg d c line pos) = Some ss \<Longrightarrow>
   \<forall>s \<in> set ss.
      (kind s \<in> {Link, Tag, Code, FootnoteRef} \<longrightarrow>
         special cfg (drop (startOffset s) line) = Some (kind s, endOffset s - startOffset s))
    \<and> (kind s \<notin> {Link, Tag, Code, FootnoteRef} \<longrightarrow>
         special cfg (drop (startOffset s) line) = None)
    \<and> (kind s = Word \<longrightarrow> correct s \<noteq> None)
    \<and> (kind s \<noteq> Word \<longrightarrow> correct s = None)"
proof (induction pos c arbitrary: ss rule: tokens_induct [of line _ cfg d])
  case (finished pos c)
  then show ?case by (simp add: tokens_end)
next
  case (stuck pos c k style pos' c1 q1)
  from stuck(4) show ?case by (simp add: tokens_stuck [OF stuck(1-3)])
next
  case (step pos c k style pos' c1 q1)
  let ?Q = "\<lambda>s. (kind s \<in> {Link, Tag, Code, FootnoteRef} \<longrightarrow>
         special cfg (drop (startOffset s) line) = Some (kind s, endOffset s - startOffset s))
    \<and> (kind s \<notin> {Link, Tag, Code, FootnoteRef} \<longrightarrow>
         special cfg (drop (startOffset s) line) = None)
    \<and> (kind s = Word \<longrightarrow> correct s \<noteq> None)
    \<and> (kind s \<noteq> Word \<longrightarrow> correct s = None)"
  from step(1,2,3,6) obtain ss' where s': "fst (tokens cfg d c1 line pos') = Some ss'"
    and ss: "ss = (case k of None \<Rightarrow> [] | Some kd \<Rightarrow> [span_of line pos kd style pos']) @ ss'"
    by (rule tokens_Some_step)
  from step(5) [OF s'] have ih: "\<forall>s \<in> set ss'. ?Q s" .
  have "\<forall>s \<in> set (case k of None \<Rightarrow> [] | Some kd \<Rightarrow> [span_of line pos kd style pos']). ?Q s"
  proof (cases k)
    case None
    then show ?thesis by simp
  next
    case (Some kd)
    show ?thesis
    proof (cases "kd \<in> {Link, Tag, Code, FootnoteRef}")
      case True
      with Some have "k \<in> Some ` {Link, Tag, Code, FootnoteRef}" by simp
      from token_facts(5) [OF step(1,2) this] Some True show ?thesis
        by (auto simp: span_of_def)
    next
      case False
      with Some have "k \<notin> Some ` {Link, Tag, Code, FootnoteRef}" by auto
      from token_facts(6) [OF step(1,2) this] Some False show ?thesis
        by (auto simp: span_of_def)
    qed
  qed
  with ih show ?case by (simp only: ss set_append ball_Un)
qed

lemma ordered_from_all:
  "ordered_from a ss \<Longrightarrow> s \<in> set ss \<Longrightarrow> a \<le> startOffset s \<and> startOffset s \<le> endOffset s"
proof (induction ss arbitrary: a)
  case Nil
  then show ?case by simp
next
  case (Cons x xs)
  show ?case
  proof (cases "s = x")
    case True
    with Cons.prems show ?thesis by simp
  next
    case False
    with Cons.prems have "s \<in> set xs" "ordered_from (endOffset x) xs" by simp_all
    from Cons.IH [OF this(2,1)] Cons.prems(1) show ?thesis by simp
  qed
qed

lemma ordered_from_disjoint:
  "ordered_from a ss \<Longrightarrow> s \<in> set ss \<Longrightarrow> w \<in> set ss \<Longrightarrow> s \<noteq> w \<Longrightarrow>
     endOffset w \<le> startOffset s \<or> endOffset s \<le> startOffset w"
proof (induction ss arbitrary: a)
  case Nil
  then show ?case by simp
next
  case (Cons x xs)
  from Cons.prems(1) have tl: "ordered_from (endOffset x) xs" by simp
  consider (sx) "s = x" "w \<in> set xs" | (wx) "w = x" "s \<in> set xs"
    | (both) "s \<in> set xs" "w \<in> set xs"
    using Cons.prems by auto
  then show ?case
  proof cases
    case sx
    with ordered_from_all [OF tl sx(2)] show ?thesis by simp
  next
    case wx
    with ordered_from_all [OF tl wx(2)] show ?thesis by simp
  next
    case both
    from Cons.IH [OF tl both Cons.prems(4)] show ?thesis .
  qed
qed

lemma space_delim: "32 \<in> set delim"
  by (simp add: delim_def js_def)

lemma token_url_facts:
  assumes lt: "start < length line"
    and tk: "token cfg d c line start = ((Some URL, style, pos), c', q)"
  shows "32 \<notin> set (take (pos - start) (drop start line))
       \<and> (pos = length line \<or> line ! pos = 32)"
  using lt
proof (cases rule: token_cases [of start line cfg d c])
  case (special k0 n)
  from special_kinds [OF special(1)] special(2) tk show ?thesis by auto
next
  case delim
  with tk show ?thesis by simp
next
  case (number w)
  with tk show ?thesis by simp
next
  case (word w)
  with tk show ?thesis by simp
next
  case (url w)
  define u where "u = takeWhile (\<lambda>ch. ch \<noteq> 32) (drop (start + length w) line)"
  from url(6) tk have p: "pos = start + length w + length u" by (simp add: u_def)
  from word_run [OF lt url(3)] url(1)
  have wl: "start + length w \<le> length line" and tw: "take (length w) (drop start line) = w"
    by simp_all
  have "drop start line = take (length w) (drop start line) @ drop (length w) (drop start line)"
    by (simp only: append_take_drop_id)
  with tw have sp: "drop start line = w @ drop (start + length w) line" by (simp add: add.commute)
  have tu: "take (length u) (drop (start + length w) line) = u"
    unfolding u_def by (rule takeWhile_eq_take [symmetric])
  have "take (length w + length u) (drop start line) = w @ u"
    by (subst sp) (simp add: tu)
  with p have tx: "take (pos - start) (drop start line) = w @ u" by simp
  have "\<forall>ch \<in> set w. ch \<notin> set delim" unfolding url(1) by (auto dest: set_takeWhileD)
  with space_delim have nw: "32 \<notin> set w" by blast
  have nu: "32 \<notin> set u" unfolding u_def by (auto dest: set_takeWhileD)
  have e: "pos = length line \<or> line ! pos = 32"
  proof (cases "length u < length (drop (start + length w) line)")
    case True
    then have "\<not> (drop (start + length w) line ! length u) \<noteq> 32"
      unfolding u_def by (rule nth_length_takeWhile)
    with True p show ?thesis by (simp add: add.assoc)
  next
    case False
    have "length u \<le> length (drop (start + length w) line)"
      unfolding u_def by (rule length_takeWhile_le)
    with False have "length u = length (drop (start + length w) line)" by simp
    with p wl show ?thesis by simp
  qed
  from nw nu e show ?thesis by (simp add: tx)
qed

lemma tokens_urls:
  "fst (tokens cfg d c line pos) = Some ss \<Longrightarrow>
   \<forall>s \<in> set ss. kind s = URL \<longrightarrow>
      32 \<notin> set (span_text s) \<and> (endOffset s = length line \<or> line ! endOffset s = 32)"
proof (induction pos c arbitrary: ss rule: tokens_induct [of line _ cfg d])
  case (finished pos c)
  then show ?case by (simp add: tokens_end)
next
  case (stuck pos c k style pos' c1 q1)
  from stuck(4) show ?case by (simp add: tokens_stuck [OF stuck(1-3)])
next
  case (step pos c k style pos' c1 q1)
  let ?Q = "\<lambda>s. kind s = URL \<longrightarrow>
      32 \<notin> set (span_text s) \<and> (endOffset s = length line \<or> line ! endOffset s = 32)"
  from step(1,2,3,6) obtain ss' where s': "fst (tokens cfg d c1 line pos') = Some ss'"
    and ss: "ss = (case k of None \<Rightarrow> [] | Some kd \<Rightarrow> [span_of line pos kd style pos']) @ ss'"
    by (rule tokens_Some_step)
  from step(5) [OF s'] have ih: "\<forall>s \<in> set ss'. ?Q s" .
  have "\<forall>s \<in> set (case k of None \<Rightarrow> [] | Some kd \<Rightarrow> [span_of line pos kd style pos']). ?Q s"
  proof (cases k)
    case None
    then show ?thesis by simp
  next
    case (Some kd)
    show ?thesis
    proof (cases "kd = URL")
      case True
      with Some step(2) have "token cfg d c line pos = ((Some URL, style, pos'), c1, q1)"
        by simp
      from token_url_facts [OF step(1) this] Some show ?thesis
        by (simp add: span_of_def)
    next
      case False
      with Some show ?thesis by (simp add: span_of_def)
    qed
  qed
  with ih show ?case by (simp only: ss set_append ball_Un)
qed

section \<open>Ordered spans and dropped delimiters\<close>

lemma never_empty_example: "never_empty example_config"
proof -
  have t: "tag_pattern rest \<noteq> Some 0" for rest
    by (cases rest) (simp_all add: tag_pattern_def Let_def)
  have z: "zknLinkRE ls le rest \<noteq> Some 0" for ls le rest
    using zknLinkRE_bounds [of ls le rest 0] by auto
  from t z show ?thesis by (simp add: never_empty_def example_config_def)
qed

lemma example_line_spans:
  "tokenize example_config accepts_all empty_cache example_line = Some
     [\<lparr>kind = Word, span_text = js ''See'', startOffset = 0, endOffset = 3,
        correct = Some True\<rparr>,
      \<lparr>kind = Link, span_text = js ''[[note]]'', startOffset = 4, endOffset = 12,
        correct = None\<rparr>,
      \<lparr>kind = Tag, span_text = js ''#idea'', startOffset = 13, endOffset = 18,
        correct = None\<rparr>,
      \<lparr>kind = Word, span_text = js ''here'', startOffset = 19, endOffset = 23,
        correct = Some True\<rparr>]"
  by (simp add: eval_simps)

lemma plain_line_spans:
  "tokenize example_config accepts_all empty_cache (js ''teh, 42!'') = Some
     [\<lparr>kind = Word, span_text = js ''teh'', startOffset = 0, endOffset = 3,
        correct = Some True\<rparr>,
      \<lparr>kind = Number, span_text = js ''42'', startOffset = 5, endOffset = 7,
        correct = None\<rparr>]"
  by (simp add: eval_simps)

text \<open>
  C1, as the mode behaves. The empty line gives the empty span sequence, and every
  line has a span sequence when none of the three expressions matches the empty text.
  The spans of a line are ordered and do not overlap; each span lies within the line,
  is not empty, and its text is exactly the characters of the line between its
  offsets, so that the texts joined in order are the characters of the line at the
  offsets inside spans. Every character outside the spans is a delimiter. A Word or
  Number span holds no delimiter and ends where a delimiter stands or the line ends;
  a URL span holds no space and ends where a space stands or the line ends; a link,
  tag, code or footnote span is what the expressions match at its start. With the
  delimiters inside link, tag, code, footnote and URL spans taken out, the joined
  texts are the non-delimiter characters of the line in their order; and where all
  spans are Words and Numbers the joined texts are exactly these characters.
\<close>

theorem tokenize_covers_line:
  "tokenize cfg d c [] = Some []
 \<and> (never_empty cfg \<longrightarrow> (\<exists>ss. tokenize cfg d c line = Some ss))
 \<and> (\<forall>ss. tokenize cfg d c line = Some ss \<longrightarrow>
      ordered_from 0 ss
    \<and> (\<forall>s \<in> set ss. startOffset s < endOffset s \<and> endOffset s \<le> length line
         \<and> span_text s = take (endOffset s - startOffset s) (drop (startOffset s) line))
    \<and> (\<forall>s \<in> set ss. \<forall>w \<in> set ss. s \<noteq> w \<longrightarrow>
          endOffset w \<le> startOffset s \<or> endOffset s \<le> startOffset w)
    \<and> (\<forall>i < length line. \<not> covered ss i \<longrightarrow> line ! i \<in> set delim)
    \<and> concat (map span_text ss) = map ((!) line) (filter (covered ss) [0..<length line])
    \<and> (\<forall>s \<in> set ss. kind s = Word \<or> kind s = Number \<longrightarrow>
          (\<forall>ch \<in> set (span_text s). ch \<notin> set delim)
        \<and> (endOffset s = length line \<or> line ! endOffset s \<in> set delim))
    \<and> (\<forall>s \<in> set ss. kind s = URL \<longrightarrow>
          32 \<notin> set (span_text s)
        \<and> (endOffset s = length line \<or> line ! endOffset s = 32))
    \<and> (\<forall>s \<in> set ss. kind s \<in> {Link, Tag, Code, FootnoteRef} \<longrightarrow>
          special cfg (drop (startOffset s) line)
            = Some (kind s, endOffset s - startOffset s))
    \<and> non_delimiters (concat (map span_text ss)) = non_delimiters line
    \<and> ((\<forall>s \<in> set ss. kind s = Word \<or> kind s = Number) \<longrightarrow>
          concat (map span_text ss) = non_delimiters line))"
proof (intro conjI)
  show "tokenize cfg d c [] = Some []"
    by (simp add: tokenize_def annotate_def tokens_end)
next
  show "never_empty cfg \<longrightarrow> (\<exists>ss. tokenize cfg d c line = Some ss)"
  proof
    assume "never_empty cfg"
    from tokens_total [OF this, of d c line 0]
    show "\<exists>ss. tokenize cfg d c line = Some ss"
      by (simp add: tokenize_def annotate_def)
  qed
next
  show "\<forall>ss. tokenize cfg d c line = Some ss \<longrightarrow>
      ordered_from 0 ss
    \<and> (\<forall>s \<in> set ss. startOffset s < endOffset s \<and> endOffset s \<le> length line
         \<and> span_text s = take (endOffset s - startOffset s) (drop (startOffset s) line))
    \<and> (\<forall>s \<in> set ss. \<forall>w \<in> set ss. s \<noteq> w \<longrightarrow>
          endOffset w \<le> startOffset s \<or> endOffset s \<le> startOffset w)
    \<and> (\<forall>i < length line. \<not> covered ss i \<longrightarrow> line ! i \<in> set delim)
    \<and> concat (map span_text ss) = map ((!) line) (filter (covered ss) [0..<length line])
    \<and> (\<forall>s \<in> set ss. kind s = Word \<or> kind s = Number \<longrightarrow>
          (\<forall>ch \<in> set (span_text s). ch \<notin> set delim)
        \<and> (endOffset s = length line \<or> line ! endOffset s \<in> set delim))
    \<and> (\<forall>s \<in> set ss. kind s = URL \<longrightarrow>
          32 \<notin> set (span_text s)
        \<and> (endOffset s = length line \<or> line ! endOffset s = 32))
    \<and> (\<forall>s \<in> set ss. kind s \<in> {Link, Tag, Code, FootnoteRef} \<longrightarrow>
          special cfg (drop (startOffset s) line)
            = Some (kind s, endOffset s - startOffset s))
    \<and> non_delimiters (concat (map span_text ss)) = non_delimiters line
    \<and> ((\<forall>s \<in> set ss. kind s = Word \<or> kind s = Number) \<longrightarrow>
          concat (map span_text ss) = non_delimiters line)"
  proof (intro allI impI)
    fix ss assume "tokenize cfg d c line = Some ss"
    then have t: "fst (tokens cfg d c line 0) = Some ss"
      by (simp add: tokenize_def annotate_def)
    from tokens_ordered [OF t] have o: "ordered_from 0 ss" .
    from tokens_spans [OF t]
    have sp: "\<forall>s \<in> set ss. startOffset s < endOffset s \<and> endOffset s \<le> length line
         \<and> span_text s = take (endOffset s - startOffset s) (drop (startOffset s) line)"
      by simp
    from ordered_from_disjoint [OF o]
    have dj: "\<forall>s \<in> set ss. \<forall>w \<in> set ss. s \<noteq> w \<longrightarrow>
          endOffset w \<le> startOffset s \<or> endOffset s \<le> startOffset w"
      by blast
    from tokens_gaps [OF t]
    have g: "\<forall>i < length line. \<not> covered ss i \<longrightarrow> line ! i \<in> set delim"
      by simp
    from tokens_concat [OF t]
    have cc: "concat (map span_text ss)
                = map ((!) line) (filter (covered ss) [0..<length line])" .
    from tokens_plain [OF t]
    have p: "\<forall>s \<in> set ss. kind s = Word \<or> kind s = Number \<longrightarrow>
          (\<forall>ch \<in> set (span_text s). ch \<notin> set delim)
        \<and> (endOffset s = length line \<or> line ! endOffset s \<in> set delim)" .
    from tokens_urls [OF t]
    have u: "\<forall>s \<in> set ss. kind s = URL \<longrightarrow>
          32 \<notin> set (span_text s)
        \<and> (endOffset s = length line \<or> line ! endOffset s = 32)" .
    from tokens_kinds [OF t]
    have sk: "\<forall>s \<in> set ss. kind s \<in> {Link, Tag, Code, FootnoteRef} \<longrightarrow>
          special cfg (drop (startOffset s) line)
            = Some (kind s, endOffset s - startOffset s)"
      by simp
    from tokens_non_delimiters [OF t]
    have n: "non_delimiters (concat (map span_text ss)) = non_delimiters line" by simp
    have l: "(\<forall>s \<in> set ss. kind s = Word \<or> kind s = Number) \<longrightarrow>
          concat (map span_text ss) = non_delimiters line"
    proof
      assume "\<forall>s \<in> set ss. kind s = Word \<or> kind s = Number"
      with p have "\<forall>ch \<in> set (concat (map span_text ss)). ch \<notin> set delim" by auto
      then have "non_delimiters (concat (map span_text ss)) = concat (map span_text ss)"
        unfolding non_delimiters_def by (simp only: filter_id_conv)
      with n show "concat (map span_text ss) = non_delimiters line" by simp
    qed
    from o sp dj g cc p u sk n l
    show "ordered_from 0 ss
    \<and> (\<forall>s \<in> set ss. startOffset s < endOffset s \<and> endOffset s \<le> length line
         \<and> span_text s = take (endOffset s - startOffset s) (drop (startOffset s) line))
    \<and> (\<forall>s \<in> set ss. \<forall>w \<in> set ss. s \<noteq> w \<longrightarrow>
          endOffset w \<le> startOffset s \<or> endOffset s \<le> startOffset w)
    \<and> (\<forall>i < length line. \<not> covered ss i \<longrightarrow> line ! i \<in> set delim)
    \<and> concat (map span_text ss) = map ((!) line) (filter (covered ss) [0..<length line])
    \<and> (\<forall>s \<in> set ss. kind s = Word \<or> kind s = Number \<longrightarrow>
          (\<forall>ch \<in> set (span_text s). ch \<notin> set delim)
        \<and> (endOffset s = length line \<or> line ! endOffset s \<in> set delim))
    \<and> (\<forall>s \<in> set ss. kind s = URL \<longrightarrow>
          32 \<notin> set (span_text s)
        \<and> (endOffset s = length line \<or> line ! endOffset s = 32))
    \<and> (\<forall>s \<in> set ss. kind s \<in> {Link, Tag, Code, FootnoteRef} \<longrightarrow>
          special cfg (drop (startOffset s) line)
            = Some (kind s, endOffset s - startOffset s))
    \<and> non_delimiters (concat (map span_text ss)) = non_delimiters line
    \<and> ((\<forall>s \<in> set ss. kind s = Word \<or> kind s = Number) \<longrightarrow>
          concat (map span_text ss) = non_delimiters line)"
      by (intro conjI)
  qed
qed

theorem tokenize_covers_line_witness:
  "never_empty example_config
 \<and> tokenize example_config accepts_all empty_cache example_line = Some
     [\<lparr>kind = Word, span_text = js ''See'', startOffset = 0, endOffset = 3,
        correct = Some True\<rparr>,
      \<lparr>kind = Link, span_text = js ''[[note]]'', startOffset = 4, endOffset = 12,
        correct = None\<rparr>,
      \<lparr>kind = Tag, span_text = js ''#idea'', startOffset = 13, endOffset = 18,
        correct = None\<rparr>,
      \<lparr>kind = Word, span_text = js ''here'', startOffset = 19, endOffset = 23,
        correct = Some True\<rparr>]
 \<and> non_delimiters (js ''See[[note]]#ideahere'') = non_delimiters example_line
 \<and> example_line ! 3 \<in> set delim
 \<and> tokenize example_config accepts_all empty_cache (js ''teh, 42!'') = Some
     [\<lparr>kind = Word, span_text = js ''teh'', startOffset = 0, endOffset = 3,
        correct = Some True\<rparr>,
      \<lparr>kind = Number, span_text = js ''42'', startOffset = 5, endOffset = 7,
        correct = None\<rparr>]
 \<and> js ''teh42'' = non_delimiters (js ''teh, 42!'')"
proof -
  let ?ex = "[\<lparr>kind = Word, span_text = js ''See'', startOffset = 0, endOffset = 3,
        correct = Some True\<rparr>,
      \<lparr>kind = Link, span_text = js ''[[note]]'', startOffset = 4, endOffset = 12,
        correct = None\<rparr>,
      \<lparr>kind = Tag, span_text = js ''#idea'', startOffset = 13, endOffset = 18,
        correct = None\<rparr>,
      \<lparr>kind = Word, span_text = js ''here'', startOffset = 19, endOffset = 23,
        correct = Some True\<rparr>]"
  let ?pl = "[\<lparr>kind = Word, span_text = js ''teh'', startOffset = 0, endOffset = 3,
        correct = Some True\<rparr>,
      \<lparr>kind = Number, span_text = js ''42'', startOffset = 5, endOffset = 7,
        correct = None\<rparr>]"
  note ex = tokenize_covers_line [of example_config accepts_all empty_cache example_line,
      THEN conjunct2, THEN conjunct2, rule_format, OF example_line_spans]
  note pl = tokenize_covers_line [of example_config accepts_all empty_cache "js ''teh, 42!''",
      THEN conjunct2, THEN conjunct2, rule_format, OF plain_line_spans]
  from ex have "non_delimiters (concat (map span_text ?ex)) = non_delimiters example_line"
    by (elim conjE)
  then have a: "non_delimiters (js ''See[[note]]#ideahere'') = non_delimiters example_line"
    by (simp add: js_def)
  from ex have "\<forall>i < length example_line. \<not> covered ?ex i \<longrightarrow> example_line ! i \<in> set delim"
    by (elim conjE)
  moreover have "3 < length example_line" "\<not> covered ?ex 3"
    by (simp_all add: example_line_def js_def covered_def)
  ultimately have b: "example_line ! 3 \<in> set delim" by blast
  have "\<forall>s \<in> set ?pl. kind s = Word \<or> kind s = Number" by simp
  with pl have "concat (map span_text ?pl) = non_delimiters (js ''teh, 42!'')"
    by (elim conjE) blast
  then have c: "js ''teh42'' = non_delimiters (js ''teh, 42!'')"
    by (simp add: js_def)
  from never_empty_example example_line_spans plain_line_spans a b c show ?thesis
    by (intro conjI)
qed

text \<open>
  C1, the claim as stated: the texts of the spans joined are not the non-delimiter
  characters of the line. With the link delimiters \<open>[[\<close> and \<open>]]\<close> the line \<open>[[note]]\<close>
  is one Link span with the text \<open>[[note]]\<close>, brackets included, and the brackets are
  delimiters: the non-delimiter characters of the line are \<open>note\<close>.
\<close>

theorem tokenize_keeps_delimiters_in_spans:
  "tokenize example_config accepts_all empty_cache (js ''[[note]]'') = Some
     [\<lparr>kind = Link, span_text = js ''[[note]]'', startOffset = 0, endOffset = 8,
        correct = None\<rparr>]
 \<and> concat (map span_text
     [\<lparr>kind = Link, span_text = js ''[[note]]'', startOffset = 0, endOffset = 8,
        correct = None\<rparr>]) = js ''[[note]]''
 \<and> non_delimiters (js ''[[note]]'') = js ''note''
 \<and> concat (map span_text
     [\<lparr>kind = Link, span_text = js ''[[note]]'', startOffset = 0, endOffset = 8,
        correct = None\<rparr>]) \<noteq> non_delimiters (js ''[[note]]'')"
  by (simp add: eval_simps non_delimiters_def)

section \<open>Priority of links, tags, inline code and footnote references\<close>

lemma special_first_match:
  "special cfg rest =
     (case link_match cfg rest of Some n \<Rightarrow> Some (Link, n) | None \<Rightarrow>
      case stream_match (zknTagRE cfg) rest of Some n \<Rightarrow> Some (Tag, n) | None \<Rightarrow>
      case stream_match (codeRE cfg) rest of Some n \<Rightarrow> Some (Code, n) | None \<Rightarrow>
      case stream_match (footnoteRefRE cfg) rest of Some n \<Rightarrow> Some (FootnoteRef, n)
      | None \<Rightarrow> None)"
  by (simp add: special_def)

lemma tokens_special:
  assumes "pos < length line" "special cfg (drop pos line) = Some (k, n)"
    and "fst (tokens cfg d c line pos) = Some ss"
  shows "\<exists>ss'. fst (tokens cfg d c line (pos + n)) = Some ss'
            \<and> ss = span_of line pos k None (pos + n) # ss'
            \<and> (\<forall>s \<in> set ss'. pos + n \<le> startOffset s)"
proof -
  from assms(2) have tk: "token cfg d c line pos = ((Some k, None, pos + n), c, [])"
    by (rule token_special)
  have adv: "pos < pos + n"
  proof (rule ccontr)
    assume "\<not> pos < pos + n"
    then have "pos + n \<le> pos" by simp
    from tokens_stuck [OF assms(1) tk this] assms(3) show False by simp
  qed
  from assms(1) tk adv assms(3) obtain ss'
    where s': "fst (tokens cfg d c line (pos + n)) = Some ss'"
      and ss: "ss = (case Some k of None \<Rightarrow> [] | Some kd \<Rightarrow> [span_of line pos kd None (pos + n)]) @ ss'"
    by (rule tokens_Some_step)
  from tokens_spans [OF s'] have "\<forall>s \<in> set ss'. pos + n \<le> startOffset s" by simp
  with s' ss show ?thesis by simp
qed

lemma example_line_kinds:
  assumes "linkStart cfg = js ''[[''" "linkEnd cfg = js '']]''" "example_expressions cfg"
  shows "\<exists>ss. tokenize cfg d c example_line = Some ss
      \<and> map (\<lambda>s. (kind s, span_text s, startOffset s, endOffset s)) ss =
          [(Word, js ''See'', 0, 3), (Link, js ''[[note]]'', 4, 12),
           (Tag, js ''#idea'', 13, 18), (Word, js ''here'', 19, 23)]"
proof -
  note h = assms(3) [unfolded example_expressions_def example_line_def js_def, simplified]
  from h assms(1,2) show ?thesis
    by (simp add: tokenize_def annotate_def tokens.simps token_def special_def link_match_def
          stream_match_def zknLinkRE_def escape_regex_def js_def delim_def has_digit_def
          is_link_def span_of_def Let_def dot_def case_prod_beta example_line_def)
qed

text \<open>
  C4. Where \<open>token\<close> is called the expressions are tried in the order link, tag, inline
  code, footnote reference, and the first that matches decides: the call consumes the
  match, returns without a word being read or checked, and the next call starts
  behind the match, where all later spans lie. Every span of one of these four kinds
  is what the chain of expressions gives at its start, no other span starts where one
  of them matches, and no Word span of a line overlaps a span of another kind. With
  the link delimiters \<open>[[\<close> and \<open>]]\<close>, and a tag expression that matches \<open>#idea\<close>, the
  line \<open>See [[note]] #idea here\<close> gives Word \<open>See\<close>, Link \<open>[[note]]\<close>, Tag \<open>#idea\<close>,
  Word \<open>here\<close>.
\<close>

theorem special_spans_first_match_wins:
  "(\<forall>n. link_match cfg rest = Some n \<longrightarrow> special cfg rest = Some (Link, n))
 \<and> (\<forall>n. link_match cfg rest = None \<and> stream_match (zknTagRE cfg) rest = Some n \<longrightarrow>
        special cfg rest = Some (Tag, n))
 \<and> (\<forall>n. link_match cfg rest = None \<and> stream_match (zknTagRE cfg) rest = None
        \<and> stream_match (codeRE cfg) rest = Some n \<longrightarrow> special cfg rest = Some (Code, n))
 \<and> (\<forall>n. link_match cfg rest = None \<and> stream_match (zknTagRE cfg) rest = None
        \<and> stream_match (codeRE cfg) rest = None
        \<and> stream_match (footnoteRefRE cfg) rest = Some n \<longrightarrow>
        special cfg rest = Some (FootnoteRef, n))
 \<and> (\<forall>k n. pos < length line \<and> special cfg (drop pos line) = Some (k, n) \<longrightarrow>
        k \<noteq> Word
      \<and> token cfg d c line pos = ((Some k, None, pos + n), c, [])
      \<and> (\<forall>ss. fst (tokens cfg d c line pos) = Some ss \<longrightarrow>
            (\<exists>ss'. fst (tokens cfg d c line (pos + n)) = Some ss'
                \<and> ss = span_of line pos k None (pos + n) # ss'
                \<and> (\<forall>s \<in> set ss'. pos + n \<le> startOffset s))))
 \<and> (\<forall>ss. tokenize cfg d c line = Some ss \<longrightarrow>
        (\<forall>s \<in> set ss. \<forall>w \<in> set ss. kind s \<noteq> Word \<and> kind w = Word \<longrightarrow>
            endOffset w \<le> startOffset s \<or> endOffset s \<le> startOffset w)
      \<and> (\<forall>s \<in> set ss.
            (kind s \<in> {Link, Tag, Code, FootnoteRef} \<longrightarrow>
               special cfg (drop (startOffset s) line)
                 = Some (kind s, endOffset s - startOffset s))
          \<and> (kind s \<notin> {Link, Tag, Code, FootnoteRef} \<longrightarrow>
               special cfg (drop (startOffset s) line) = None)))
 \<and> (linkStart cfg = js ''[['' \<and> linkEnd cfg = js '']]'' \<and> example_expressions cfg \<longrightarrow>
        (\<exists>ss. tokenize cfg d c example_line = Some ss
           \<and> map (\<lambda>s. (kind s, span_text s, startOffset s, endOffset s)) ss =
               [(Word, js ''See'', 0, 3), (Link, js ''[[note]]'', 4, 12),
                (Tag, js ''#idea'', 13, 18), (Word, js ''here'', 19, 23)]))"
proof -
  have c1: "\<forall>n. link_match cfg rest = Some n \<longrightarrow> special cfg rest = Some (Link, n)"
    by (simp add: special_first_match)
  have c2: "\<forall>n. link_match cfg rest = None \<and> stream_match (zknTagRE cfg) rest = Some n \<longrightarrow>
        special cfg rest = Some (Tag, n)"
    by (simp add: special_first_match)
  have c3: "\<forall>n. link_match cfg rest = None \<and> stream_match (zknTagRE cfg) rest = None
        \<and> stream_match (codeRE cfg) rest = Some n \<longrightarrow> special cfg rest = Some (Code, n)"
    by (simp add: special_first_match)
  have c4: "\<forall>n. link_match cfg rest = None \<and> stream_match (zknTagRE cfg) rest = None
        \<and> stream_match (codeRE cfg) rest = None
        \<and> stream_match (footnoteRefRE cfg) rest = Some n \<longrightarrow>
        special cfg rest = Some (FootnoteRef, n)"
    by (simp add: special_first_match)
  have c5: "\<forall>k n. pos < length line \<and> special cfg (drop pos line) = Some (k, n) \<longrightarrow>
        k \<noteq> Word
      \<and> token cfg d c line pos = ((Some k, None, pos + n), c, [])
      \<and> (\<forall>ss. fst (tokens cfg d c line pos) = Some ss \<longrightarrow>
            (\<exists>ss'. fst (tokens cfg d c line (pos + n)) = Some ss'
                \<and> ss = span_of line pos k None (pos + n) # ss'
                \<and> (\<forall>s \<in> set ss'. pos + n \<le> startOffset s)))"
  proof (intro allI impI)
    fix k n assume a: "pos < length line \<and> special cfg (drop pos line) = Some (k, n)"
    then have lt: "pos < length line" and sp: "special cfg (drop pos line) = Some (k, n)"
      by simp_all
    from special_kinds [OF sp] have k: "k \<noteq> Word" by auto
    from sp have tk: "token cfg d c line pos = ((Some k, None, pos + n), c, [])"
      by (rule token_special)
    have "\<forall>ss. fst (tokens cfg d c line pos) = Some ss \<longrightarrow>
            (\<exists>ss'. fst (tokens cfg d c line (pos + n)) = Some ss'
                \<and> ss = span_of line pos k None (pos + n) # ss'
                \<and> (\<forall>s \<in> set ss'. pos + n \<le> startOffset s))"
      using tokens_special [OF lt sp] by blast
    with k tk show "k \<noteq> Word
      \<and> token cfg d c line pos = ((Some k, None, pos + n), c, [])
      \<and> (\<forall>ss. fst (tokens cfg d c line pos) = Some ss \<longrightarrow>
            (\<exists>ss'. fst (tokens cfg d c line (pos + n)) = Some ss'
                \<and> ss = span_of line pos k None (pos + n) # ss'
                \<and> (\<forall>s \<in> set ss'. pos + n \<le> startOffset s)))"
      by (intro conjI)
  qed
  have c6: "\<forall>ss. tokenize cfg d c line = Some ss \<longrightarrow>
        (\<forall>s \<in> set ss. \<forall>w \<in> set ss. kind s \<noteq> Word \<and> kind w = Word \<longrightarrow>
            endOffset w \<le> startOffset s \<or> endOffset s \<le> startOffset w)
      \<and> (\<forall>s \<in> set ss.
            (kind s \<in> {Link, Tag, Code, FootnoteRef} \<longrightarrow>
               special cfg (drop (startOffset s) line)
                 = Some (kind s, endOffset s - startOffset s))
          \<and> (kind s \<notin> {Link, Tag, Code, FootnoteRef} \<longrightarrow>
               special cfg (drop (startOffset s) line) = None))"
  proof (intro allI impI)
    fix ss assume "tokenize cfg d c line = Some ss"
    then have t: "fst (tokens cfg d c line 0) = Some ss"
      by (simp add: tokenize_def annotate_def)
    have a: "\<forall>s \<in> set ss. \<forall>w \<in> set ss. kind s \<noteq> Word \<and> kind w = Word \<longrightarrow>
            endOffset w \<le> startOffset s \<or> endOffset s \<le> startOffset w"
    proof (intro ballI impI)
      fix s w assume sw: "s \<in> set ss" "w \<in> set ss" and k: "kind s \<noteq> Word \<and> kind w = Word"
      then have "s \<noteq> w" by auto
      from ordered_from_disjoint [OF tokens_ordered [OF t] sw this]
      show "endOffset w \<le> startOffset s \<or> endOffset s \<le> startOffset w" .
    qed
    from tokens_kinds [OF t]
    have b: "\<forall>s \<in> set ss.
            (kind s \<in> {Link, Tag, Code, FootnoteRef} \<longrightarrow>
               special cfg (drop (startOffset s) line)
                 = Some (kind s, endOffset s - startOffset s))
          \<and> (kind s \<notin> {Link, Tag, Code, FootnoteRef} \<longrightarrow>
               special cfg (drop (startOffset s) line) = None)"
      by simp
    from a b show "(\<forall>s \<in> set ss. \<forall>w \<in> set ss. kind s \<noteq> Word \<and> kind w = Word \<longrightarrow>
            endOffset w \<le> startOffset s \<or> endOffset s \<le> startOffset w)
      \<and> (\<forall>s \<in> set ss.
            (kind s \<in> {Link, Tag, Code, FootnoteRef} \<longrightarrow>
               special cfg (drop (startOffset s) line)
                 = Some (kind s, endOffset s - startOffset s))
          \<and> (kind s \<notin> {Link, Tag, Code, FootnoteRef} \<longrightarrow>
               special cfg (drop (startOffset s) line) = None))"
      by (intro conjI)
  qed
  have c7: "linkStart cfg = js ''[['' \<and> linkEnd cfg = js '']]'' \<and> example_expressions cfg \<longrightarrow>
        (\<exists>ss. tokenize cfg d c example_line = Some ss
           \<and> map (\<lambda>s. (kind s, span_text s, startOffset s, endOffset s)) ss =
               [(Word, js ''See'', 0, 3), (Link, js ''[[note]]'', 4, 12),
                (Tag, js ''#idea'', 13, 18), (Word, js ''here'', 19, 23)])"
    using example_line_kinds [of cfg d c] by (intro impI) (elim conjE)
  from c1 c2 c3 c4 c5 c6 c7 show ?thesis by (intro conjI)
qed

theorem special_spans_first_match_wins_witness:
  "link_match example_config (js ''[[note]] #idea here'') = Some 8
 \<and> special example_config (js ''[[note]] #idea here'') = Some (Link, 8)
 \<and> link_match example_config (js ''#idea here'') = None
 \<and> stream_match (zknTagRE example_config) (js ''#idea here'') = Some 5
 \<and> special example_config (js ''#idea here'') = Some (Tag, 5)
 \<and> (4::nat) < length example_line
 \<and> token example_config rejects_all empty_cache example_line 4
      = ((Some Link, None, 12), empty_cache, [])
 \<and> linkStart example_config = js ''[[''
 \<and> linkEnd example_config = js '']]''
 \<and> example_expressions example_config
 \<and> (\<exists>ss. tokenize example_config rejects_all empty_cache example_line = Some ss
       \<and> map (\<lambda>s. (kind s, span_text s, startOffset s, endOffset s)) ss =
           [(Word, js ''See'', 0, 3), (Link, js ''[[note]]'', 4, 12),
            (Tag, js ''#idea'', 13, 18), (Word, js ''here'', 19, 23)])"
proof -
  let ?p = example_config
  have m1: "link_match ?p (js ''[[note]] #idea here'') = Some 8" by (simp add: eval_simps)
  have m2: "link_match ?p (js ''#idea here'') = None" by (simp add: eval_simps)
  have m3: "stream_match (zknTagRE ?p) (js ''#idea here'') = Some 5" by (simp add: eval_simps)
  have dr: "drop 4 example_line = js ''[[note]] #idea here''"
    by (simp add: example_line_def js_def)
  have lt: "(4::nat) < length example_line" by (simp add: example_line_def js_def)
  have ls: "linkStart ?p = js ''[[''" and le: "linkEnd ?p = js '']]''"
    by (simp_all add: example_config_def)
  have ee: "example_expressions ?p" by (simp add: example_expressions_def eval_simps)
  note c1 = special_spans_first_match_wins
    [of ?p "js ''[[note]] #idea here''", THEN conjunct1, rule_format, OF m1]
  note c2 = special_spans_first_match_wins
    [of ?p "js ''#idea here''", THEN conjunct2, THEN conjunct1, rule_format, OF conjI, OF m2 m3]
  from c1 dr have s1': "special ?p (drop 4 example_line) = Some (Link, 8)" by simp
  note c5 = special_spans_first_match_wins
    [of ?p _ 4 example_line rejects_all empty_cache,
     THEN conjunct2, THEN conjunct2, THEN conjunct2, THEN conjunct2, THEN conjunct1,
     rule_format, OF conjI, OF lt s1']
  from c5 have tk: "token ?p rejects_all empty_cache example_line 4
      = ((Some Link, None, 12), empty_cache, [])"
    by simp
  note c7 = special_spans_first_match_wins
    [of ?p _ _ _ rejects_all empty_cache,
     THEN conjunct2, THEN conjunct2, THEN conjunct2, THEN conjunct2, THEN conjunct2,
     THEN conjunct2, rule_format, OF conjI, OF ls conjI, OF le ee]
  from m1 c1 m2 m3 c2 lt tk ls le ee c7 show ?thesis by (intro conjI)
qed

section \<open>Numbers and links are not checked\<close>

lemma token_word_facts:
  assumes lt: "start < length line"
    and tk: "token cfg d c line start = ((Some Word, style, pos), c', q)"
  shows "\<not> has_digit (take (pos - start) (drop start line))"
    and "\<not> is_link (take (pos - start) (drop start line))"
    and "(style = None) = fst (check d c (unquote (take (pos - start) (drop start line))))"
    and "(c', q) = snd (check d c (unquote (take (pos - start) (drop start line))))"
proof -
  have "\<not> has_digit (take (pos - start) (drop start line))
      \<and> \<not> is_link (take (pos - start) (drop start line))
      \<and> (style = None) = fst (check d c (unquote (take (pos - start) (drop start line))))
      \<and> (c', q) = snd (check d c (unquote (take (pos - start) (drop start line))))"
  using lt
  proof (cases rule: token_cases [of start line cfg d c])
    case (special k0 n)
    from special_kinds [OF special(1)] special(2) tk show ?thesis by auto
  next
    case delim
    with tk show ?thesis by simp
  next
    case (number w)
    with tk show ?thesis by simp
  next
    case (url w)
    with tk show ?thesis by simp
  next
    case (word w)
    from word(6) tk have p: "pos = start + length w"
      and st: "style = (if fst (check d c (unquote w)) then None else Some ''spell-error'')"
      and cq: "(c', q) = snd (check d c (unquote w))"
      by simp_all
    from word_run(3) [OF lt word(3)] word(1) have "take (length w) (drop start line) = w"
      by simp
    with p have "take (pos - start) (drop start line) = w" by simp
    with word(4,5) st cq show ?thesis by simp
  qed
  then show "\<not> has_digit (take (pos - start) (drop start line))"
    and "\<not> is_link (take (pos - start) (drop start line))"
    and "(style = None) = fst (check d c (unquote (take (pos - start) (drop start line))))"
    and "(c', q) = snd (check d c (unquote (take (pos - start) (drop start line))))"
    by blast+
qed

lemma tokens_words:
  "fst (tokens cfg d c line pos) = Some ss \<Longrightarrow>
   \<forall>s \<in> set ss. kind s = Word \<longrightarrow> \<not> has_digit (span_text s) \<and> \<not> is_link (span_text s)"
proof (induction pos c arbitrary: ss rule: tokens_induct [of line _ cfg d])
  case (finished pos c)
  then show ?case by (simp add: tokens_end)
next
  case (stuck pos c k style pos' c1 q1)
  from stuck(4) show ?case by (simp add: tokens_stuck [OF stuck(1-3)])
next
  case (step pos c k style pos' c1 q1)
  let ?Q = "\<lambda>s. kind s = Word \<longrightarrow> \<not> has_digit (span_text s) \<and> \<not> is_link (span_text s)"
  from step(1,2,3,6) obtain ss' where s': "fst (tokens cfg d c1 line pos') = Some ss'"
    and ss: "ss = (case k of None \<Rightarrow> [] | Some kd \<Rightarrow> [span_of line pos kd style pos']) @ ss'"
    by (rule tokens_Some_step)
  from step(5) [OF s'] have ih: "\<forall>s \<in> set ss'. ?Q s" .
  have "\<forall>s \<in> set (case k of None \<Rightarrow> [] | Some kd \<Rightarrow> [span_of line pos kd style pos']). ?Q s"
  proof (cases k)
    case None
    then show ?thesis by simp
  next
    case (Some kd)
    show ?thesis
    proof (cases "kd = Word")
      case True
      with Some step(2) have "token cfg d c line pos = ((Some Word, style, pos'), c1, q1)"
        by simp
      from token_word_facts(1,2) [OF step(1) this] Some show ?thesis
        by (simp add: span_of_def)
    next
      case False
      with Some show ?thesis by (simp add: span_of_def)
    qed
  qed
  with ih show ?case by (simp only: ss set_append ball_Un)
qed

lemma no_word_in_42:
  assumes "tokenize cfg d c (js ''42'') = Some ss" "s \<in> set ss"
  shows "kind s \<noteq> Word"
proof
  assume w: "kind s = Word"
  from assms(1) have t: "fst (tokens cfg d c (js ''42'') 0) = Some ss"
    by (simp add: tokenize_def annotate_def)
  from tokens_words [OF t] assms(2) w have nd: "\<not> has_digit (span_text s)" by blast
  from tokens_spans [OF t] assms(2)
  have b: "startOffset s < endOffset s" "endOffset s \<le> length (js ''42'')"
    and tx: "span_text s = take (endOffset s - startOffset s) (drop (startOffset s) (js ''42''))"
    by auto
  from b have ne: "span_text s \<noteq> []" by (simp add: tx)
  have "set (span_text s) \<subseteq> set (js ''42'')"
    unfolding tx by (meson set_take_subset set_drop_subset subset_trans)
  with ne have "hd (span_text s) \<in> set (js ''42'')" by (meson hd_in_set subsetD)
  then have "hd (span_text s) \<in> set (js ''0123456789'')" by (auto simp: js_def)
  with ne have "has_digit (span_text s)"
    unfolding has_digit_def list_ex_iff by (meson hd_in_set)
  with nd show False by simp
qed

lemma annotate_42:
  assumes "special cfg (js ''42'') = None"
  shows "annotate cfg d c (js ''42'') =
           (Some [\<lparr>kind = Number, span_text = js ''42'', startOffset = 0, endOffset = 2,
                    correct = None\<rparr>], c, [])"
proof -
  note h = assms [unfolded js_def, simplified]
  from h show ?thesis
    by (simp add: annotate_def tokens.simps token_def js_def delim_def has_digit_def
          span_of_def Let_def)
qed

lemma annotate_url:
  assumes "special cfg (js ''https://example.com'') = None"
  shows "annotate cfg d c (js ''https://example.com'') =
           (Some [\<lparr>kind = URL, span_text = js ''https://example.com'', startOffset = 0,
                    endOffset = 19, correct = None\<rparr>], c, [])"
proof -
  note h = assms [unfolded js_def, simplified]
  from h show ?thesis
    by (simp add: annotate_def tokens.simps token_def js_def delim_def has_digit_def
          is_link_def span_of_def Let_def)
qed

text \<open>
  C7. Whatever the dictionary answers and whatever the cache holds, no span of the
  line \<open>42\<close> has \<open>correct = false\<close>; where it is read as a word (none of the four
  expressions matches at its start) it is one Number span, and the line
  \<open>https://example.com\<close> is one URL span, both with \<open>correct\<close> undefined, the cache left
  as it was and nothing sent to the dictionary provider. In every line a call of
  \<open>token\<close> that does not return in the Word branch leaves the cache alone and asks
  nothing, a span that is not a Word has \<open>correct\<close> undefined, and no Word span holds
  a digit or the beginning of a link.
\<close>

theorem number_and_url_never_misspelled:
  "(\<forall>ss. tokenize cfg d c (js ''42'') = Some ss \<longrightarrow>
      (\<forall>s \<in> set ss. kind s \<noteq> Word \<and> correct s \<noteq> Some False))
 \<and> (special cfg (js ''42'') = None \<longrightarrow>
      annotate cfg d c (js ''42'') =
        (Some [\<lparr>kind = Number, span_text = js ''42'', startOffset = 0, endOffset = 2,
                 correct = None\<rparr>], c, []))
 \<and> (special cfg (js ''https://example.com'') = None \<longrightarrow>
      annotate cfg d c (js ''https://example.com'') =
        (Some [\<lparr>kind = URL, span_text = js ''https://example.com'', startOffset = 0,
                 endOffset = 19, correct = None\<rparr>], c, []))
 \<and> (\<forall>line ss. tokenize cfg d c line = Some ss \<longrightarrow>
      (\<forall>s \<in> set ss.
          (kind s \<noteq> Word \<longrightarrow> correct s = None)
        \<and> (kind s = Word \<longrightarrow> \<not> has_digit (span_text s) \<and> \<not> is_link (span_text s))))
 \<and> (\<forall>line pos k style pos' c' q.
      pos < length line \<and> token cfg d c line pos = ((k, style, pos'), c', q)
      \<and> k \<noteq> Some Word \<longrightarrow> c' = c \<and> q = [] \<and> style = None)"
proof -
  have c1: "\<forall>ss. tokenize cfg d c (js ''42'') = Some ss \<longrightarrow>
      (\<forall>s \<in> set ss. kind s \<noteq> Word \<and> correct s \<noteq> Some False)"
  proof (intro allI impI ballI)
    fix ss s assume t: "tokenize cfg d c (js ''42'') = Some ss" and s: "s \<in> set ss"
    from no_word_in_42 [OF t s] have k: "kind s \<noteq> Word" .
    from t have "fst (tokens cfg d c (js ''42'') 0) = Some ss"
      by (simp add: tokenize_def annotate_def)
    from tokens_kinds [OF this] s k have "correct s = None" by blast
    with k show "kind s \<noteq> Word \<and> correct s \<noteq> Some False" by simp
  qed
  have c2: "special cfg (js ''42'') = None \<longrightarrow>
      annotate cfg d c (js ''42'') =
        (Some [\<lparr>kind = Number, span_text = js ''42'', startOffset = 0, endOffset = 2,
                 correct = None\<rparr>], c, [])"
    using annotate_42 [of cfg d c] by (intro impI)
  have c3: "special cfg (js ''https://example.com'') = None \<longrightarrow>
      annotate cfg d c (js ''https://example.com'') =
        (Some [\<lparr>kind = URL, span_text = js ''https://example.com'', startOffset = 0,
                 endOffset = 19, correct = None\<rparr>], c, [])"
    using annotate_url [of cfg d c] by (intro impI)
  have c4: "\<forall>line ss. tokenize cfg d c line = Some ss \<longrightarrow>
      (\<forall>s \<in> set ss.
          (kind s \<noteq> Word \<longrightarrow> correct s = None)
        \<and> (kind s = Word \<longrightarrow> \<not> has_digit (span_text s) \<and> \<not> is_link (span_text s)))"
  proof (intro allI impI ballI)
    fix line ss s assume "tokenize cfg d c line = Some ss" and s: "s \<in> set ss"
    then have t: "fst (tokens cfg d c line 0) = Some ss"
      by (simp add: tokenize_def annotate_def)
    from tokens_kinds [OF t] s have "kind s \<noteq> Word \<longrightarrow> correct s = None" by blast
    moreover from tokens_words [OF t] s
    have "kind s = Word \<longrightarrow> \<not> has_digit (span_text s) \<and> \<not> is_link (span_text s)" by blast
    ultimately show "(kind s \<noteq> Word \<longrightarrow> correct s = None)
        \<and> (kind s = Word \<longrightarrow> \<not> has_digit (span_text s) \<and> \<not> is_link (span_text s))"
      by (intro conjI)
  qed
  have c5: "\<forall>line pos k style pos' c' q.
      pos < length line \<and> token cfg d c line pos = ((k, style, pos'), c', q)
      \<and> k \<noteq> Some Word \<longrightarrow> c' = c \<and> q = [] \<and> style = None"
  proof (intro allI impI)
    fix line pos k style pos' c' q
    assume "pos < length line \<and> token cfg d c line pos = ((k, style, pos'), c', q)
      \<and> k \<noteq> Some Word"
    then have a: "pos < length line" "token cfg d c line pos = ((k, style, pos'), c', q)"
      "k \<noteq> Some Word" by simp_all
    from token_facts(4) [OF a] show "c' = c \<and> q = [] \<and> style = None" .
  qed
  from c1 c2 c3 c4 c5 show ?thesis by (intro conjI)
qed

theorem number_and_url_never_misspelled_witness:
  "special example_config (js ''42'') = None
 \<and> annotate example_config rejects_all empty_cache (js ''42'') =
      (Some [\<lparr>kind = Number, span_text = js ''42'', startOffset = 0, endOffset = 2,
               correct = None\<rparr>], empty_cache, [])
 \<and> special example_config (js ''https://example.com'') = None
 \<and> annotate example_config rejects_all empty_cache (js ''https://example.com'') =
      (Some [\<lparr>kind = URL, span_text = js ''https://example.com'', startOffset = 0,
               endOffset = 19, correct = None\<rparr>], empty_cache, [])
 \<and> tokenize example_config rejects_all empty_cache (js ''teh 42'') = Some
      [\<lparr>kind = Word, span_text = js ''teh'', startOffset = 0, endOffset = 3,
         correct = Some False\<rparr>,
       \<lparr>kind = Number, span_text = js ''42'', startOffset = 4, endOffset = 6,
         correct = None\<rparr>]
 \<and> \<not> has_digit (js ''teh'')
 \<and> (0::nat) < length (js ''42'')
 \<and> token example_config rejects_all empty_cache (js ''42'') 0
      = ((Some Number, None, 2), empty_cache, [])"
proof -
  let ?p = example_config
  let ?ss = "[\<lparr>kind = Word, span_text = js ''teh'', startOffset = 0, endOffset = 3,
         correct = Some False\<rparr>,
       \<lparr>kind = Number, span_text = js ''42'', startOffset = 4, endOffset = 6,
         correct = None\<rparr>]"
  have s1: "special ?p (js ''42'') = None" by (simp add: eval_simps)
  have s2: "special ?p (js ''https://example.com'') = None" by (simp add: eval_simps)
  note a1 = number_and_url_never_misspelled [of ?p rejects_all empty_cache,
      THEN conjunct2, THEN conjunct1, rule_format, OF s1]
  note a2 = number_and_url_never_misspelled [of ?p rejects_all empty_cache,
      THEN conjunct2, THEN conjunct2, THEN conjunct1, rule_format, OF s2]
  have t: "tokenize ?p rejects_all empty_cache (js ''teh 42'') = Some ?ss"
    by (simp add: eval_simps)
  have m: "\<lparr>kind = Word, span_text = js ''teh'', startOffset = 0, endOffset = 3,
         correct = Some False\<rparr> \<in> set ?ss" by simp
  note a4 = number_and_url_never_misspelled [of ?p rejects_all empty_cache,
      THEN conjunct2, THEN conjunct2, THEN conjunct2, THEN conjunct1, rule_format, OF t m,
      THEN conjunct2, rule_format]
  have nd: "\<not> has_digit (js ''teh'')" using a4 by simp
  have lt: "(0::nat) < length (js ''42'')" by (simp add: js_def)
  have tk: "token ?p rejects_all empty_cache (js ''42'') 0
      = ((Some Number, None, 2), empty_cache, [])"
    by (simp add: eval_simps)
  from s1 a1 s2 a2 t nd lt tk show ?thesis by (intro conjI)
qed

section \<open>Scanning a line again\<close>

lemma check_same_answer:
  "fst (check d (fst (snd (check d c u))) t) = fst (check d c t)"
  by (auto simp: check_def split: option.splits)

lemma token_same_answers:
  assumes "\<And>t. fst (check d c' t) = fst (check d c t)"
  shows "fst (token cfg d c' line pos) = fst (token cfg d c line pos)"
    and "fst (check d (fst (snd (token cfg d c' line pos))) t)
           = fst (check d (fst (snd (token cfg d c line pos))) t)"
  by (simp_all add: token_def Let_def case_prod_beta assms check_same_answer
        split: option.splits)

lemma token_cache_answers:
  "fst (check d (fst (snd (token cfg d c line pos))) t) = fst (check d c t)"
  by (simp add: token_def Let_def case_prod_beta check_same_answer split: option.splits)

lemma token_shape:
  "fst (fst (token cfg d' c' line pos)) = fst (fst (token cfg d c line pos))"
  "snd (snd (fst (token cfg d' c' line pos))) = snd (snd (fst (token cfg d c line pos)))"
  by (simp_all add: token_def Let_def case_prod_beta split: option.splits)

lemma tokens_cache_answers:
  "fst (check d (fst (snd (tokens cfg d c line pos))) t) = fst (check d c t)"
proof (induction pos c rule: tokens_induct [of line _ cfg d])
  case (finished pos c)
  then show ?case by (simp add: tokens_end)
next
  case (stuck pos c k style pos' c1 q1)
  from token_cache_answers [of d cfg c line pos t] stuck(2)
  show ?case by (simp add: tokens_stuck [OF stuck(1-3)])
next
  case (step pos c k style pos' c1 q1)
  from token_cache_answers [of d cfg c line pos t] step(2)
  have "fst (check d c1 t) = fst (check d c t)" by simp
  with step(5) show ?case by (simp add: tokens_step [OF step(1-3)])
qed

lemma tokens_same_answers:
  assumes "\<And>t. fst (check d c' t) = fst (check d c t)"
  shows "fst (tokens cfg d c' line pos) = fst (tokens cfg d c line pos)"
  using assms
proof (induction "length line - pos" arbitrary: pos c c' rule: less_induct)
  case (less pos c c')
  show ?case
  proof (cases "length line \<le> pos")
    case True
    then show ?thesis by (simp add: tokens_end)
  next
    case False
    then have lt: "pos < length line" by simp
    obtain k style pos' c1 q1 where tk: "token cfg d c line pos = ((k, style, pos'), c1, q1)"
      by (cases "token cfg d c line pos") auto
    obtain k' style' pos'' c1' q1'
      where tk': "token cfg d c' line pos = ((k', style', pos''), c1', q1')"
      by (cases "token cfg d c' line pos") auto
    from token_same_answers(1) [of d c' c cfg line pos] less(2) tk tk'
    have e: "k' = k" "style' = style" "pos'' = pos'" by simp_all
    with tk' have tk'': "token cfg d c' line pos = ((k, style, pos'), c1', q1')" by simp
    have a: "fst (check d c1' t) = fst (check d c1 t)" for t
      using token_same_answers(2) [of d c' c cfg line pos t] less(2) tk tk' by simp
    show ?thesis
    proof (cases "pos' \<le> pos")
      case True
      then show ?thesis
        by (simp add: tokens_stuck [OF lt tk] tokens_stuck [OF lt tk''])
    next
      case False
      then have adv: "pos < pos'" by simp
      with lt have "length line - pos' < length line - pos" by simp
      from less(1) [OF this a]
      have "fst (tokens cfg d c1' line pos') = fst (tokens cfg d c1 line pos')" .
      then show ?thesis
        by (simp add: tokens_step [OF lt tk adv] tokens_step [OF lt tk'' adv])
    qed
  qed
qed

lemma shape_span_of:
  "shape (span_of line pos k style' pos') = shape (span_of line pos k style pos')"
  by (simp add: shape_def span_of_def)

lemma tokens_shape:
  "map_option (map shape) (fst (tokens cfg d' c' line pos))
     = map_option (map shape) (fst (tokens cfg d c line pos))"
proof (induction "length line - pos" arbitrary: pos c c' rule: less_induct)
  case (less pos c c')
  show ?case
  proof (cases "length line \<le> pos")
    case True
    then show ?thesis by (simp add: tokens_end)
  next
    case False
    then have lt: "pos < length line" by simp
    obtain k style pos' c1 q1 where tk: "token cfg d c line pos = ((k, style, pos'), c1, q1)"
      by (cases "token cfg d c line pos") auto
    obtain k' style' pos'' c1' q1'
      where tk': "token cfg d' c' line pos = ((k', style', pos''), c1', q1')"
      by (cases "token cfg d' c' line pos") auto
    from token_shape [of cfg d' c' line pos d c] tk tk'
    have e: "k' = k" "pos'' = pos'" by simp_all
    with tk' have tk'': "token cfg d' c' line pos = ((k, style', pos'), c1', q1')" by simp
    show ?thesis
    proof (cases "pos' \<le> pos")
      case True
      then show ?thesis
        by (simp add: tokens_stuck [OF lt tk] tokens_stuck [OF lt tk''])
    next
      case False
      then have adv: "pos < pos'" by simp
      with lt have "length line - pos' < length line - pos" by simp
      from less [OF this, of c1' c1]
      have ih: "map_option (map shape) (fst (tokens cfg d' c1' line pos'))
              = map_option (map shape) (fst (tokens cfg d c1 line pos'))" .
      have o: "map shape (case k of None \<Rightarrow> [] | Some kd \<Rightarrow> [span_of line pos kd style' pos'])
             = map shape (case k of None \<Rightarrow> [] | Some kd \<Rightarrow> [span_of line pos kd style pos'])"
        by (cases k) (simp_all add: shape_span_of)
      have m: "map_option (map shape) (map_option (\<lambda>ss. xs @ ss) r)
             = map_option (\<lambda>ss. map shape xs @ ss) (map_option (map shape) r)"
        for xs :: "span list" and r
        by (cases r) simp_all
      show ?thesis
        by (simp only: tokens_step [OF lt tk adv] tokens_step [OF lt tk'' adv] fst_conv m o ih)
    qed
  qed
qed

lemma annotate_again:
  "fst (annotate cfg d (fst (snd (annotate cfg d c line))) line) = fst (annotate cfg d c line)"
  unfolding annotate_def
  by (rule tokens_same_answers) (rule tokens_cache_answers)

text \<open>
  C5, as the mode behaves. A scan leaves the raw text of the Line Record as it was.
  Scanning the record again with the same dictionary and the cache as the first scan
  left it gives the same span sequence, and the record stays as it is; so does every
  scan of the line with a cache from which \<open>check\<close> gives the same answers. Across
  any change of the dictionary and of the cache the spans of a line keep their kinds,
  texts and offsets: two scans of the same text differ at most in the \<open>correct\<close>
  fields of the Word spans.
\<close>

theorem rescan_clean_line_same_spans:
  "rawText (fst (scan p d c r)) = rawText r
 \<and> spans (fst (scan p d (snd (scan p d c r)) (fst (scan p d c r)))) = spans (fst (scan p d c r))
 \<and> fst (scan p d (snd (scan p d c r)) (fst (scan p d c r))) = fst (scan p d c r)
 \<and> (\<forall>c'. (\<forall>t. fst (check d c' t) = fst (check d c t)) \<longrightarrow>
        fst (annotate p d c' line) = fst (annotate p d c line))
 \<and> (\<forall>d' c'. map_option (map shape) (fst (annotate p d' c' line))
             = map_option (map shape) (fst (annotate p d c line)))"
proof -
  obtain so c1 q where a: "annotate p d c (rawText r) = (so, c1, q)"
    by (cases "annotate p d c (rawText r)") auto
  from annotate_again [of p d c "rawText r"] a
  have "fst (annotate p d c1 (rawText r)) = so" by simp
  then obtain c2 q2 where a2: "annotate p d c1 (rawText r) = (so, c2, q2)"
    by (cases "annotate p d c1 (rawText r)") auto
  have s: "rawText (fst (scan p d c r)) = rawText r
    \<and> fst (scan p d (snd (scan p d c r)) (fst (scan p d c r))) = fst (scan p d c r)"
  proof (cases so)
    case None
    with a a2 show ?thesis by (simp add: scan_def)
  next
    case (Some ss)
    with a a2 show ?thesis by (simp add: scan_def)
  qed
  then have c1: "rawText (fst (scan p d c r)) = rawText r"
    and c3: "fst (scan p d (snd (scan p d c r)) (fst (scan p d c r))) = fst (scan p d c r)"
    by simp_all
  from c3 have c2: "spans (fst (scan p d (snd (scan p d c r)) (fst (scan p d c r))))
      = spans (fst (scan p d c r))" by simp
  have c4: "\<forall>c'. (\<forall>t. fst (check d c' t) = fst (check d c t)) \<longrightarrow>
        fst (annotate p d c' line) = fst (annotate p d c line)"
    unfolding annotate_def by (intro allI impI tokens_same_answers) simp
  have c5: "\<forall>d' c'. map_option (map shape) (fst (annotate p d' c' line))
             = map_option (map shape) (fst (annotate p d c line))"
    unfolding annotate_def by (intro allI tokens_shape)
  from c1 c2 c3 c4 c5 show ?thesis by (intro conjI)
qed

theorem rescan_clean_line_same_spans_witness:
  "(\<forall>t. fst (check rejects_all [js ''teh'' \<mapsto> False] t) = fst (check rejects_all empty_cache t))
 \<and> fst (annotate example_config rejects_all [js ''teh'' \<mapsto> False] (js ''teh''))
     = fst (annotate example_config rejects_all empty_cache (js ''teh''))
 \<and> fst (annotate example_config rejects_all empty_cache (js ''teh''))
     = Some [\<lparr>kind = Word, span_text = js ''teh'', startOffset = 0, endOffset = 3,
               correct = Some False\<rparr>]
 \<and> spans (fst (scan example_config rejects_all
       (snd (scan example_config rejects_all empty_cache teh_record))
       (fst (scan example_config rejects_all empty_cache teh_record))))
     = [\<lparr>kind = Word, span_text = js ''teh'', startOffset = 0, endOffset = 3,
          correct = Some False\<rparr>]"
proof -
  have h: "\<forall>t. fst (check rejects_all [js ''teh'' \<mapsto> False] t)
             = fst (check rejects_all empty_cache t)"
    by (simp add: check_def rejects_all_def empty_cache_def)
  note a = rescan_clean_line_same_spans
    [of example_config rejects_all empty_cache _ "js ''teh''",
     THEN conjunct2, THEN conjunct2, THEN conjunct2, THEN conjunct1, rule_format,
     OF h [rule_format]]
  have b: "fst (annotate example_config rejects_all empty_cache (js ''teh''))
     = Some [\<lparr>kind = Word, span_text = js ''teh'', startOffset = 0, endOffset = 3,
               correct = Some False\<rparr>]"
    by (simp add: eval_simps)
  have "spans (fst (scan example_config rejects_all empty_cache teh_record))
     = [\<lparr>kind = Word, span_text = js ''teh'', startOffset = 0, endOffset = 3,
          correct = Some False\<rparr>]"
    by (simp add: eval_simps teh_record_def)
  with rescan_clean_line_same_spans
    [of example_config rejects_all empty_cache teh_record, THEN conjunct2, THEN conjunct1]
  have c: "spans (fst (scan example_config rejects_all
       (snd (scan example_config rejects_all empty_cache teh_record))
       (fst (scan example_config rejects_all empty_cache teh_record))))
     = [\<lparr>kind = Word, span_text = js ''teh'', startOffset = 0, endOffset = 3,
          correct = Some False\<rparr>]"
    by simp
  from h a b c show ?thesis by (intro conjI)
qed

text \<open>
  C5, the claim as stated: the second scan of a Clean line with unchanged text need
  not give the span sequence of the first. The line \<open>teh\<close> is scanned while the
  dictionary is not ready: \<open>check\<close> answers true and stores nothing, the record becomes
  Clean and its Word span is correct. Scanned again once the dictionary answers, the
  same text gives a Word span that is not correct.
\<close>

theorem rescan_after_dictionary_ready_differs:
  "dirty (fst (scan example_config not_ready empty_cache teh_record)) = False
 \<and> rawText (fst (scan example_config not_ready empty_cache teh_record)) = rawText teh_record
 \<and> spans (fst (scan example_config not_ready empty_cache teh_record))
     = [\<lparr>kind = Word, span_text = js ''teh'', startOffset = 0, endOffset = 3,
          correct = Some True\<rparr>]
 \<and> spans (fst (scan example_config rejects_all
       (snd (scan example_config not_ready empty_cache teh_record))
       (fst (scan example_config not_ready empty_cache teh_record))))
     = [\<lparr>kind = Word, span_text = js ''teh'', startOffset = 0, endOffset = 3,
          correct = Some False\<rparr>]
 \<and> spans (fst (scan example_config rejects_all
       (snd (scan example_config not_ready empty_cache teh_record))
       (fst (scan example_config not_ready empty_cache teh_record))))
     \<noteq> spans (fst (scan example_config not_ready empty_cache teh_record))"
  by (simp add: eval_simps teh_record_def)

section \<open>Incremental Re-scan Controller\<close>

lemma onBufferChange_single:
  "onBufferChange [i] 0 st =
     st\<lparr>records := map (\<lambda>r. if lineIndex r = i then r\<lparr>dirty := True\<rparr> else r) (records st)\<rparr>"
  by (simp add: onBufferChange_def)

lemma find_other_line:
  "j \<noteq> i \<Longrightarrow>
     find (\<lambda>r. lineIndex r = j) (map (\<lambda>r. if lineIndex r = i then r\<lparr>dirty := True\<rparr> else r) rs)
       = find (\<lambda>r. lineIndex r = j) rs"
  by (induction rs) auto

lemma marked_line_dirty:
  assumes "r \<in> set (map (\<lambda>x. if lineIndex x = i then x\<lparr>dirty := True\<rparr> else x) rs)"
    and "lineIndex r = i"
  shows "dirty r"
proof -
  from assms(1) obtain x where x: "x \<in> set rs"
    and r: "r = (if lineIndex x = i then x\<lparr>dirty := True\<rparr> else x)"
    by (auto simp only: set_map image_iff)
  show ?thesis
  proof (cases "lineIndex x = i")
    case True
    with r show ?thesis by simp
  next
    case False
    with r have "r = x" by simp
    with False assms(2) show ?thesis by simp
  qed
qed

lemma getSpans_spans:
  "fst (getSpans p d buf j st) =
     (case find (\<lambda>r. lineIndex r = j) (records st) of
        None \<Rightarrow> []
      | Some r \<Rightarrow>
          if dirty r then spans (fst (scan p d (dictCache st) (r\<lparr>rawText := buf j\<rparr>)))
          else spans r)"
  by (simp add: getSpans_def split: option.splits prod.splits)

lemma getSpans_scanned:
  "snd (snd (getSpans p d buf j st)) =
     (case find (\<lambda>r. lineIndex r = j) (records st) of
        None \<Rightarrow> []
      | Some r \<Rightarrow> if dirty r then [j] else [])"
  by (simp add: getSpans_def split: option.splits prod.splits)

lemma getSpans_scans_dirty_only:
  assumes "snd (snd (getSpans p d buf j st)) \<noteq> []"
  shows "(\<exists>r. find (\<lambda>r. lineIndex r = j) (records st) = Some r \<and> dirty r)
       \<and> snd (snd (getSpans p d buf j st)) = [j]"
proof (cases "find (\<lambda>r. lineIndex r = j) (records st)")
  case None
  with assms show ?thesis by (simp add: getSpans_scanned)
next
  case (Some r)
  with assms have "dirty r" by (auto simp: getSpans_scanned split: if_splits)
  with Some show ?thesis by (simp add: getSpans_scanned)
qed

text \<open>
  C6. An edit that touches the single line \<open>i\<close> and shifts nothing marks the record of
  line \<open>i\<close> Dirty and leaves every other record and the Cache as they were. The
  Annotation Pipeline runs only inside \<open>getSpans\<close> of a line whose record is Dirty.
  For every other line \<open>j\<close>, whose buffer text the edit has not changed, \<open>getSpans\<close>
  gives after the edit the span sequence it gives before it; when the record of \<open>j\<close> is
  Clean these are its stored spans, returned without a scan and without a change of
  state.
\<close>

theorem single_line_edit_keeps_other_lines:
  "records (onBufferChange [i] 0 st)
     = map (\<lambda>r. if lineIndex r = i then r\<lparr>dirty := True\<rparr> else r) (records st)
 \<and> dictCache (onBufferChange [i] 0 st) = dictCache st
 \<and> (\<forall>r \<in> set (records (onBufferChange [i] 0 st)). lineIndex r = i \<longrightarrow> dirty r)
 \<and> (\<forall>j. j \<noteq> i \<longrightarrow>
        find (\<lambda>r. lineIndex r = j) (records (onBufferChange [i] 0 st))
          = find (\<lambda>r. lineIndex r = j) (records st))
 \<and> (\<forall>j. j \<noteq> i \<and> buf' j = buf j \<longrightarrow>
        fst (getSpans p d buf' j (onBufferChange [i] 0 st)) = fst (getSpans p d buf j st)
      \<and> snd (snd (getSpans p d buf' j (onBufferChange [i] 0 st)))
          = snd (snd (getSpans p d buf j st)))
 \<and> (\<forall>j r. j \<noteq> i \<and> find (\<lambda>r. lineIndex r = j) (records st) = Some r \<and> \<not> dirty r \<longrightarrow>
        getSpans p d buf' j (onBufferChange [i] 0 st)
          = (spans r, onBufferChange [i] 0 st, []))
 \<and> (\<forall>j st'. snd (snd (getSpans p d buf j st')) \<noteq> [] \<longrightarrow>
        (\<exists>r. find (\<lambda>r. lineIndex r = j) (records st') = Some r \<and> dirty r)
      \<and> snd (snd (getSpans p d buf j st')) = [j])"
proof (intro conjI allI impI ballI)
  show "records (onBufferChange [i] 0 st)
     = map (\<lambda>r. if lineIndex r = i then r\<lparr>dirty := True\<rparr> else r) (records st)"
    by (simp add: onBufferChange_single)
  show "dictCache (onBufferChange [i] 0 st) = dictCache st"
    by (simp add: onBufferChange_single)
next
  fix r assume "r \<in> set (records (onBufferChange [i] 0 st))" and l: "lineIndex r = i"
  then have "r \<in> set (map (\<lambda>x. if lineIndex x = i then x\<lparr>dirty := True\<rparr> else x) (records st))"
    by (simp only: onBufferChange_single) simp
  from marked_line_dirty [OF this l] show "dirty r" .
next
  fix j assume "j \<noteq> i"
  then show "find (\<lambda>r. lineIndex r = j) (records (onBufferChange [i] 0 st))
          = find (\<lambda>r. lineIndex r = j) (records st)"
    by (simp add: onBufferChange_single find_other_line)
next
  fix j assume a: "j \<noteq> i \<and> buf' j = buf j"
  then have f: "find (\<lambda>r. lineIndex r = j) (records (onBufferChange [i] 0 st))
          = find (\<lambda>r. lineIndex r = j) (records st)"
    by (simp add: onBufferChange_single find_other_line)
  have c: "dictCache (onBufferChange [i] 0 st) = dictCache st"
    by (simp add: onBufferChange_single)
  from a have b: "buf' j = buf j" by simp
  show "fst (getSpans p d buf' j (onBufferChange [i] 0 st)) = fst (getSpans p d buf j st)"
    by (simp only: getSpans_spans f c b)
  show "snd (snd (getSpans p d buf' j (onBufferChange [i] 0 st)))
          = snd (snd (getSpans p d buf j st))"
    by (simp only: getSpans_scanned f)
next
  fix j r assume a: "j \<noteq> i \<and> find (\<lambda>r. lineIndex r = j) (records st) = Some r \<and> \<not> dirty r"
  then have f: "find (\<lambda>r. lineIndex r = j) (records (onBufferChange [i] 0 st)) = Some r"
    by (simp add: onBufferChange_single find_other_line)
  with a show "getSpans p d buf' j (onBufferChange [i] 0 st)
          = (spans r, onBufferChange [i] 0 st, [])"
    unfolding getSpans_def f by simp
next
  fix j st' assume "snd (snd (getSpans p d buf j st')) \<noteq> []"
  from getSpans_scans_dirty_only [OF this]
  show "\<exists>r. find (\<lambda>r. lineIndex r = j) (records st') = Some r \<and> dirty r"
    and "snd (snd (getSpans p d buf j st')) = [j]"
    by blast+
qed

theorem single_line_edit_keeps_other_lines_witness:
  "find (\<lambda>r. lineIndex r = 3) (records (load example_config (\<lambda>t. Some True) doc10))
     = Some \<lparr>lineIndex = 3, rawText = js ''three'',
             spans = [\<lparr>kind = Word, span_text = js ''three'', startOffset = 0, endOffset = 5,
                       correct = Some True\<rparr>],
             dirty = False\<rparr>
 \<and> map dirty (records (onBufferChange [5] 0 (load example_config (\<lambda>t. Some True) doc10)))
     = [False, False, False, False, False, True, False, False, False, False]
 \<and> getSpans example_config (\<lambda>t. Some True) (\<lambda>i. js ''edited'') 3
       (onBufferChange [5] 0 (load example_config (\<lambda>t. Some True) doc10))
     = ([\<lparr>kind = Word, span_text = js ''three'', startOffset = 0, endOffset = 5,
           correct = Some True\<rparr>],
        onBufferChange [5] 0 (load example_config (\<lambda>t. Some True) doc10), [])"
proof -
  let ?st = "load example_config (\<lambda>t. Some True) doc10"
  let ?r3 = "\<lparr>lineIndex = 3, rawText = js ''three'',
             spans = [\<lparr>kind = Word, span_text = js ''three'', startOffset = 0, endOffset = 5,
                       correct = Some True\<rparr>],
             dirty = False\<rparr>"
  have f3: "find (\<lambda>r. lineIndex r = 3) (records ?st) = Some ?r3"
    by (simp add: load_def doc10_def eval_simps)
  note inst = single_line_edit_keeps_other_lines
    [where i = 5 and st = ?st and p = example_config and d = "\<lambda>t. Some True"
       and buf' = "\<lambda>i. js ''edited''" and buf = "\<lambda>i. js ''edited''"]
  have dm: "map dirty (records (onBufferChange [5] 0 ?st))
     = [False, False, False, False, False, True, False, False, False, False]"
    by (simp add: load_def doc10_def onBufferChange_def eval_simps)
  have "(3::nat) \<noteq> 5 \<and> find (\<lambda>r. lineIndex r = 3) (records ?st) = Some ?r3 \<and> \<not> dirty ?r3"
    using f3 by simp
  with inst have "getSpans example_config (\<lambda>t. Some True) (\<lambda>i. js ''edited'') 3
       (onBufferChange [5] 0 ?st) = (spans ?r3, onBufferChange [5] 0 ?st, [])"
    by blast
  with f3 dm show ?thesis by simp
qed

section \<open>RecentDocsProvider: \<open>get\<close> hands out a copy\<close>

lemma those_map_iff:
  "those (map f xs) = Some ys \<longleftrightarrow> list_all2 (\<lambda>x y. f x = Some y) xs ys"
  by (induction xs arbitrary: ys) (auto simp: list_all2_Cons1 split: option.splits)

lemma fold_max_le:
  "fold max xs a \<le> (n::nat) \<longleftrightarrow> a \<le> n \<and> (\<forall>x \<in> set xs. x \<le> n)"
  by (induction xs arbitrary: a) auto

lemma prefix_agrees:
  assumes "take (length h) H = h" "a < length h"
  shows "a < length H \<and> H ! a = h ! a"
proof -
  from assms(1) have "length h \<le> length H"
    by (metis length_take min.cobounded1)
  moreover from assms have "H ! a = h ! a" by (metis nth_take)
  ultimately show ?thesis using assms(2) by simp
qed

lemma stringify_nesting:
  "stringify n h v = Some t \<Longrightarrow> nesting t \<le> n"
proof (induction n arbitrary: v t)
  case 0
  then show ?case by simp
next
  case (Suc n)
  show ?case
  proof (cases v)
    case (VRef a)
    with Suc.prems have lt: "a < length h" by (simp split: if_splits)
    show ?thesis
    proof (cases "h ! a")
      case (Arr vs)
      with Suc.prems VRef lt obtain ts where t: "t = JsArr ts"
        and all: "list_all2 (\<lambda>x y. stringify n h x = Some y) vs ts"
        by (auto simp: those_map_iff)
      have "\<forall>y \<in> set ts. nesting y \<le> n"
      proof
        fix y assume "y \<in> set ts"
        then obtain i where i: "i < length ts" "ts ! i = y" by (auto simp: in_set_conv_nth)
        from list_all2_nthD2 [OF all i(1)] i(2)
        obtain x where "stringify n h x = Some y" by auto
        then show "nesting y \<le> n" by (rule Suc.IH)
      qed
      then show ?thesis by (simp add: t fold_max_le)
    next
      case (Obj kvs)
      with Suc.prems VRef lt obtain fs where t: "t = JsObj fs"
        and all: "list_all2 (\<lambda>x y. (case x of (k, v) \<Rightarrow> map_option (Pair k) (stringify n h v)) = Some y) kvs fs"
        by (auto simp: those_map_iff)
      have "\<forall>f \<in> set fs. nesting (snd f) \<le> n"
      proof
        fix f assume "f \<in> set fs"
        then obtain i where i: "i < length fs" "fs ! i = f" by (auto simp: in_set_conv_nth)
        from list_all2_nthD2 [OF all i(1)] i(2)
        have "(case kvs ! i of (k, v) \<Rightarrow> map_option (Pair k) (stringify n h v)) = Some f"
          by simp
        then obtain v' where "stringify n h v' = Some (snd f)"
          by (cases "kvs ! i") auto
        then show "nesting (snd f) \<le> n" by (rule Suc.IH)
      qed
      then show ?thesis by (auto simp: t fold_max_le)
    qed
  qed (use Suc.prems in auto)
qed

lemma stringify_extend:
  assumes pre: "take (length h) H = h"
  shows "stringify n h v = Some t \<Longrightarrow> stringify n H v = Some t"
proof (induction n arbitrary: v t)
  case 0
  then show ?case by simp
next
  case (Suc n)
  show ?case
  proof (cases v)
    case (VRef a)
    with Suc.prems have lt: "a < length h" by (simp split: if_splits)
    from prefix_agrees [OF pre lt] have ltH: "a < length H" and same: "H ! a = h ! a"
      by simp_all
    show ?thesis
    proof (cases "h ! a")
      case (Arr vs)
      with Suc.prems VRef lt obtain ts where t: "t = JsArr ts"
        and all: "list_all2 (\<lambda>x y. stringify n h x = Some y) vs ts"
        by (auto simp: those_map_iff)
      from all have "list_all2 (\<lambda>x y. stringify n H x = Some y) vs ts"
        by (rule list_all2_mono) (rule Suc.IH)
      then show ?thesis
        using VRef ltH same Arr t by (simp add: those_map_iff [symmetric])
    next
      case (Obj kvs)
      with Suc.prems VRef lt obtain fs where t: "t = JsObj fs"
        and all: "list_all2 (\<lambda>x y. (case x of (k, v) \<Rightarrow> map_option (Pair k) (stringify n h v)) = Some y) kvs fs"
        by (auto simp: those_map_iff)
      from all have "list_all2 (\<lambda>x y. (case x of (k, v) \<Rightarrow> map_option (Pair k) (stringify n H v)) = Some y) kvs fs"
      proof (rule list_all2_mono)
        fix x y assume "(case x of (k, v) \<Rightarrow> map_option (Pair k) (stringify n h v)) = Some y"
        then obtain k v' t' where x: "x = (k, v')" and y: "y = (k, t')"
          and s: "stringify n h v' = Some t'"
          by (cases x) auto
        from Suc.IH [OF s] x y
        show "(case x of (k, v) \<Rightarrow> map_option (Pair k) (stringify n H v)) = Some y" by simp
      qed
      then show ?thesis
        using VRef ltH same Obj t by (simp add: those_map_iff [symmetric])
    qed
  qed (use Suc.prems in auto)
qed


text \<open>\<open>parse\<close> only adds cells, and the new cells refer to new cells only.\<close>

lemma fresh_refs_mono: "fresh_refs lo hi rs \<Longrightarrow> lo' \<le> lo \<Longrightarrow> hi \<le> hi' \<Longrightarrow> fresh_refs lo' hi' rs"
  by (auto simp: fresh_refs_def)

lemma fresh_refs_append:
  "fresh_refs lo hi (xs @ ys) \<longleftrightarrow> fresh_refs lo hi xs \<and> fresh_refs lo hi ys"
  by (auto simp: fresh_refs_def)

lemma parse_fresh:
  "parse t h = (v, h') \<Longrightarrow>
     \<exists>ext. h' = h @ ext \<and> fresh_refs (length h) (length h') (val_refs v)
       \<and> (\<forall>c \<in> set ext. fresh_refs (length h) (length h') (cell_refs c))"
  "parse_list ts h = (vs, h') \<Longrightarrow>
     \<exists>ext. h' = h @ ext \<and> fresh_refs (length h) (length h') (concat (map val_refs vs))
       \<and> (\<forall>c \<in> set ext. fresh_refs (length h) (length h') (cell_refs c))"
  "parse_fields fs h = (kvs, h') \<Longrightarrow>
     \<exists>ext. h' = h @ ext
       \<and> fresh_refs (length h) (length h') (concat (map (\<lambda>(k, v). val_refs v) kvs))
       \<and> (\<forall>c \<in> set ext. fresh_refs (length h) (length h') (cell_refs c))"
proof (induction t h and ts h and fs h arbitrary: v h' and vs h' and kvs h'
    rule: parse_parse_list_parse_fields.induct)
  case (5 ts h)
  obtain vs h1 where pl: "parse_list ts h = (vs, h1)" by (cases "parse_list ts h")
  from "5.IH" [OF pl] obtain ext where e: "h1 = h @ ext"
    and r: "fresh_refs (length h) (length h1) (concat (map val_refs vs))"
    and c: "\<forall>c \<in> set ext. fresh_refs (length h) (length h1) (cell_refs c)" by blast
  from "5.prems" pl have v: "v = VRef (length h1)" and h': "h' = h1 @ [Arr vs]" by simp_all
  have "h' = h @ (ext @ [Arr vs])" by (simp add: h' e)
  moreover have "fresh_refs (length h) (length h') (val_refs v)"
    by (simp add: v h' e fresh_refs_def val_refs_def)
  moreover have "\<forall>c \<in> set (ext @ [Arr vs]). fresh_refs (length h) (length h') (cell_refs c)"
    using c r by (auto simp: h' cell_refs_def intro: fresh_refs_mono)
  ultimately show ?case by blast
next
  case (6 fs h)
  obtain kvs h1 where pl: "parse_fields fs h = (kvs, h1)" by (cases "parse_fields fs h")
  from "6.IH" [OF pl] obtain ext where e: "h1 = h @ ext"
    and r: "fresh_refs (length h) (length h1) (concat (map (\<lambda>(k, v). val_refs v) kvs))"
    and c: "\<forall>c \<in> set ext. fresh_refs (length h) (length h1) (cell_refs c)" by blast
  from "6.prems" pl have v: "v = VRef (length h1)" and h': "h' = h1 @ [Obj kvs]" by simp_all
  have "h' = h @ (ext @ [Obj kvs])" by (simp add: h' e)
  moreover have "fresh_refs (length h) (length h') (val_refs v)"
    by (simp add: v h' e fresh_refs_def val_refs_def)
  moreover have "\<forall>c \<in> set (ext @ [Obj kvs]). fresh_refs (length h) (length h') (cell_refs c)"
    using c r by (auto simp: h' cell_refs_def intro: fresh_refs_mono)
  ultimately show ?case by blast
next
  case (8 t ts h)
  obtain v1 h1 where p: "parse t h = (v1, h1)" by (cases "parse t h")
  obtain vs2 h2 where pl: "parse_list ts h1 = (vs2, h2)" by (cases "parse_list ts h1")
  from "8.IH"(1) [OF p] obtain e1 where e1: "h1 = h @ e1"
    and r1: "fresh_refs (length h) (length h1) (val_refs v1)"
    and c1: "\<forall>c \<in> set e1. fresh_refs (length h) (length h1) (cell_refs c)" by blast
  from "8.IH"(2) [OF p [symmetric] pl] obtain e2 where e2: "h2 = h1 @ e2"
    and r2: "fresh_refs (length h1) (length h2) (concat (map val_refs vs2))"
    and c2: "\<forall>c \<in> set e2. fresh_refs (length h1) (length h2) (cell_refs c)" by blast
  from "8.prems" p pl have vs: "vs = v1 # vs2" and h': "h' = h2" by simp_all
  have le: "length h \<le> length h1" "length h1 \<le> length h2" by (simp_all add: e1 e2)
  have "h' = h @ (e1 @ e2)" by (simp add: h' e1 e2)
  moreover have "fresh_refs (length h) (length h') (concat (map val_refs vs))"
    using fresh_refs_mono [OF r1 le_refl le(2)] fresh_refs_mono [OF r2 le(1) le_refl]
    by (simp add: vs h' fresh_refs_append)
  moreover have "\<forall>c \<in> set (e1 @ e2). fresh_refs (length h) (length h') (cell_refs c)"
    using c1 c2 le by (auto simp: h' intro: fresh_refs_mono)
  ultimately show ?case by blast
next
  case (10 k t fs h)
  obtain v1 h1 where p: "parse t h = (v1, h1)" by (cases "parse t h")
  obtain kvs2 h2 where pl: "parse_fields fs h1 = (kvs2, h2)" by (cases "parse_fields fs h1")
  from "10.IH"(1) [OF p] obtain e1 where e1: "h1 = h @ e1"
    and r1: "fresh_refs (length h) (length h1) (val_refs v1)"
    and c1: "\<forall>c \<in> set e1. fresh_refs (length h) (length h1) (cell_refs c)" by blast
  from "10.IH"(2) [OF p [symmetric] pl] obtain e2 where e2: "h2 = h1 @ e2"
    and r2: "fresh_refs (length h1) (length h2) (concat (map (\<lambda>(k, v). val_refs v) kvs2))"
    and c2: "\<forall>c \<in> set e2. fresh_refs (length h1) (length h2) (cell_refs c)" by blast
  from "10.prems" p pl have kvs: "kvs = (k, v1) # kvs2" and h': "h' = h2" by simp_all
  have le: "length h \<le> length h1" "length h1 \<le> length h2" by (simp_all add: e1 e2)
  have "h' = h @ (e1 @ e2)" by (simp add: h' e1 e2)
  moreover have "fresh_refs (length h) (length h') (concat (map (\<lambda>(k, v). val_refs v) kvs))"
    using fresh_refs_mono [OF r1 le_refl le(2)] fresh_refs_mono [OF r2 le(1) le_refl]
    by (simp add: kvs h' fresh_refs_append)
  moreover have "\<forall>c \<in> set (e1 @ e2). fresh_refs (length h) (length h') (cell_refs c)"
    using c1 c2 le by (auto simp: h' intro: fresh_refs_mono)
  ultimately show ?case by blast
qed (auto simp: fresh_refs_def val_refs_def)


lemma parse_grows:
  "parse t h = (v, h') \<Longrightarrow> take (length h) h' = h \<and> length h \<le> length h'"
  "parse_list ts h = (vs, h') \<Longrightarrow> take (length h) h' = h \<and> length h \<le> length h'"
  "parse_fields fs h = (kvs, h') \<Longrightarrow> take (length h) h' = h \<and> length h \<le> length h'"
  using parse_fresh(1) [of t h v h'] parse_fresh(2) [of ts h vs h'] parse_fresh(3) [of fs h kvs h']
  by auto

lemma prefix_shorter:
  assumes "take (length h2) H = h2" "take (length h1) h2 = h1" "length h1 \<le> length h2"
  shows "take (length h1) H = h1"
proof -
  have "take (length h1) H = take (length h1) (take (length h2) H)"
    using assms(3) by (simp add: min_def)
  then show ?thesis using assms(1,2) by simp
qed

text \<open>Reading back what \<open>parse\<close> has written gives the text that was parsed.\<close>

lemma parse_roundtrip:
  "parse t h = (v, h') \<Longrightarrow> nesting t \<le> n \<Longrightarrow> take (length h') H = h' \<Longrightarrow>
     stringify n H v = Some t"
  "parse_list ts h = (vs, h') \<Longrightarrow> \<forall>t \<in> set ts. nesting t \<le> n \<Longrightarrow> take (length h') H = h' \<Longrightarrow>
     list_all2 (\<lambda>x y. stringify n H x = Some y) vs ts"
  "parse_fields fs h = (kvs, h') \<Longrightarrow> \<forall>f \<in> set fs. nesting (snd f) \<le> n \<Longrightarrow>
     take (length h') H = h' \<Longrightarrow>
     list_all2 (\<lambda>x y. (case x of (k, v) \<Rightarrow> map_option (Pair k) (stringify n H v)) = Some y) kvs fs"
proof (induction t h and ts h and fs h arbitrary: v h' n H and vs h' n H and kvs h' n H
    rule: parse_parse_list_parse_fields.induct)
  case (1 h)
  then show ?case by (cases n) auto
next
  case (2 b h)
  then show ?case by (cases n) auto
next
  case (3 i h)
  then show ?case by (cases n) auto
next
  case (4 s h)
  then show ?case by (cases n) auto
next
  case (5 ts h)
  obtain vs h1 where pl: "parse_list ts h = (vs, h1)" by (cases "parse_list ts h")
  from "5.prems"(1) pl have v: "v = VRef (length h1)" and h': "h' = h1 @ [Arr vs]" by simp_all
  from "5.prems"(2) obtain m where n: "n = Suc m" and ch: "\<forall>t \<in> set ts. nesting t \<le> m"
    by (cases n) (auto simp: fold_max_le)
  from "5.prems"(3) have pre: "take (length (h1 @ [Arr vs])) H = h1 @ [Arr vs]" by (simp add: h')
  have lt: "length h1 < length (h1 @ [Arr vs])" by simp
  from prefix_agrees [OF pre lt] have ltH: "length h1 < length H" and cell: "H ! length h1 = Arr vs"
    by simp_all
  have "take (length h1) H = h1"
    by (rule prefix_shorter [OF pre]) simp_all
  from "5.IH" [OF pl ch this]
  have "list_all2 (\<lambda>x y. stringify m H x = Some y) vs ts" .
  then show ?case
    by (simp add: v n ltH cell those_map_iff [symmetric])
next
  case (6 fs h)
  obtain kvs h1 where pl: "parse_fields fs h = (kvs, h1)" by (cases "parse_fields fs h")
  from "6.prems"(1) pl have v: "v = VRef (length h1)" and h': "h' = h1 @ [Obj kvs]" by simp_all
  from "6.prems"(2) obtain m where n: "n = Suc m" and ch: "\<forall>f \<in> set fs. nesting (snd f) \<le> m"
    by (cases n) (auto simp: fold_max_le case_prod_beta)
  from "6.prems"(3) have pre: "take (length (h1 @ [Obj kvs])) H = h1 @ [Obj kvs]" by (simp add: h')
  have lt: "length h1 < length (h1 @ [Obj kvs])" by simp
  from prefix_agrees [OF pre lt] have ltH: "length h1 < length H" and cell: "H ! length h1 = Obj kvs"
    by simp_all
  have "take (length h1) H = h1"
    by (rule prefix_shorter [OF pre]) simp_all
  from "6.IH" [OF pl ch this]
  have "list_all2 (\<lambda>x y. (case x of (k, v) \<Rightarrow> map_option (Pair k) (stringify m H v)) = Some y) kvs fs" .
  then show ?case
    by (simp add: v n ltH cell those_map_iff [symmetric])
next
  case (7 h)
  then show ?case by simp
next
  case (8 t ts h)
  obtain v1 h1 where p: "parse t h = (v1, h1)" by (cases "parse t h")
  obtain vs2 h2 where pl: "parse_list ts h1 = (vs2, h2)" by (cases "parse_list ts h1")
  from "8.prems"(1) p pl have vs: "vs = v1 # vs2" and h': "h' = h2" by simp_all
  from "8.prems"(3) have pre2: "take (length h2) H = h2" by (simp add: h')
  from parse_grows(2) [OF pl] have "take (length h1) h2 = h1" "length h1 \<le> length h2" by simp_all
  from prefix_shorter [OF pre2 this] have pre1: "take (length h1) H = h1" .
  from "8.prems"(2) have n1: "nesting t \<le> n" and n2: "\<forall>t \<in> set ts. nesting t \<le> n" by simp_all
  from "8.IH"(1) [OF p n1 pre1] have a: "stringify n H v1 = Some t" .
  from "8.IH"(2) [OF p [symmetric] pl n2 pre2]
  have b: "list_all2 (\<lambda>x y. stringify n H x = Some y) vs2 ts" .
  from a b show ?case by (simp add: vs)
next
  case (9 h)
  then show ?case by simp
next
  case (10 k t fs h)
  obtain v1 h1 where p: "parse t h = (v1, h1)" by (cases "parse t h")
  obtain kvs2 h2 where pl: "parse_fields fs h1 = (kvs2, h2)" by (cases "parse_fields fs h1")
  from "10.prems"(1) p pl have kvs: "kvs = (k, v1) # kvs2" and h': "h' = h2" by simp_all
  from "10.prems"(3) have pre2: "take (length h2) H = h2" by (simp add: h')
  from parse_grows(3) [OF pl] have "take (length h1) h2 = h1" "length h1 \<le> length h2" by simp_all
  from prefix_shorter [OF pre2 this] have pre1: "take (length h1) H = h1" .
  from "10.prems"(2) have n1: "nesting t \<le> n" and n2: "\<forall>f \<in> set fs. nesting (snd f) \<le> n"
    by simp_all
  from "10.IH"(1) [OF p n1 pre1] have a: "stringify n H v1 = Some t" .
  from "10.IH"(2) [OF p [symmetric] pl n2 pre2]
  have b: "list_all2 (\<lambda>x y. (case x of (k, v) \<Rightarrow> map_option (Pair k) (stringify n H v)) = Some y) kvs2 fs" .
  from a b show ?case by (simp add: kvs)
qed


lemma stringify_more:
  "stringify n h v = Some t \<Longrightarrow> n \<le> m \<Longrightarrow> stringify m h v = Some t"
proof (induction n arbitrary: m v t)
  case 0
  then show ?case by simp
next
  case (Suc n)
  from Suc.prems(2) obtain m' where m: "m = Suc m'" and le: "n \<le> m'" by (cases m) auto
  show ?case
  proof (cases v)
    case (VRef a)
    with Suc.prems have lt: "a < length h" by (simp split: if_splits)
    show ?thesis
    proof (cases "h ! a")
      case (Arr vs)
      with Suc.prems VRef lt obtain ts where t: "t = JsArr ts"
        and all: "list_all2 (\<lambda>x y. stringify n h x = Some y) vs ts"
        by (auto simp: those_map_iff)
      from all have "list_all2 (\<lambda>x y. stringify m' h x = Some y) vs ts"
      proof (rule list_all2_mono)
        fix x y assume "stringify n h x = Some y"
        from Suc.IH [OF this le] show "stringify m' h x = Some y" .
      qed
      then show ?thesis
        using VRef lt Arr t m by (simp add: those_map_iff [symmetric])
    next
      case (Obj kvs)
      with Suc.prems VRef lt obtain fs where t: "t = JsObj fs"
        and all: "list_all2 (\<lambda>x y. (case x of (k, v) \<Rightarrow> map_option (Pair k) (stringify n h v)) = Some y) kvs fs"
        by (auto simp: those_map_iff)
      from all have "list_all2 (\<lambda>x y. (case x of (k, v) \<Rightarrow> map_option (Pair k) (stringify m' h v)) = Some y) kvs fs"
      proof (rule list_all2_mono)
        fix x y assume "(case x of (k, v) \<Rightarrow> map_option (Pair k) (stringify n h v)) = Some y"
        then obtain k v' t' where x: "x = (k, v')" and y: "y = (k, t')"
          and s: "stringify n h v' = Some t'"
          by (cases x) auto
        from Suc.IH [OF s le] x y
        show "(case x of (k, v) \<Rightarrow> map_option (Pair k) (stringify m' h v)) = Some y" by simp
      qed
      then show ?thesis
        using VRef lt Obj t m by (simp add: those_map_iff [symmetric])
    qed
  qed (use Suc.prems m in auto)
qed

lemma parse_list_length: "parse_list ts h = (vs, h') \<Longrightarrow> length vs = length ts"
  by (induction ts arbitrary: h vs h') (auto split: prod.splits)

lemma array_length_copy:
  assumes s: "stringify n h (VRef a) = Some t" and p: "parse t h = (v, h')"
  shows "array_length h' v = array_length h (VRef a)"
proof -
  from s obtain m where n: "n = Suc m" by (cases n) auto
  from s n have lt: "a < length h" by (simp split: if_splits)
  show ?thesis
  proof (cases "h ! a")
    case (Arr vs)
    with s n lt obtain ts where t: "t = JsArr ts"
      and all: "list_all2 (\<lambda>x y. stringify m h x = Some y) vs ts"
      by (auto simp: those_map_iff)
    obtain vs' h1 where pl: "parse_list ts h = (vs', h1)" by (cases "parse_list ts h")
    with p t have "v = VRef (length h1)" "h' = h1 @ [Arr vs']" by simp_all
    then have "array_length h' v = length vs'" by (simp add: array_length_def)
    also have "\<dots> = length ts" by (rule parse_list_length [OF pl])
    also have "\<dots> = length vs" using all by (simp add: list_all2_lengthD)
    finally show ?thesis using Arr lt by (simp add: array_length_def)
  next
    case (Obj kvs)
    with s n lt obtain fs where t: "t = JsObj fs" by auto
    obtain kvs' h1 where pl: "parse_fields fs h = (kvs', h1)" by (cases "parse_fields fs h")
    with p t have "v = VRef (length h1)" "h' = h1 @ [Obj kvs']" by simp_all
    then have "array_length h' v = 0" by (simp add: array_length_def)
    then show ?thesis using Obj lt by (simp add: array_length_def)
  qed
qed

text \<open>
  C9. Let the provider's list have a JSON text \<open>t\<close> (it is JSON data and does not
  refer back to itself). Then \<open>get\<close> returns, for this and every larger bound: the
  cells of the provider are as before; the returned value reads as the same text
  \<open>t\<close>, so it is structurally equal to the list; it is a new cell, and every cell
  behind the old store refers to new cells only, so nothing reached from the returned
  array is a cell of the provider. Whatever is then written to cells outside the old
  store (the returned array, its elements, what they hold), the provider's list still
  reads as \<open>t\<close> and \<open>hasDocs\<close> answers as before. The returned array is as long as the
  list, so \<open>hasDocs\<close> is true exactly when the returned list is not empty.
\<close>

theorem get_returns_deep_copy:
  assumes "stringify n (heap st) (VRef (recentDocs st)) = Some t"
  shows "(\<exists>v st'. \<forall>m \<ge> n. get m st = Some (v, st'))
       \<and> (\<forall>v st'. get n st = Some (v, st') \<longrightarrow>
             recentDocs st' = recentDocs st
           \<and> take (length (heap st)) (heap st') = heap st
           \<and> stringify n (heap st') v = Some t
           \<and> stringify n (heap st') (VRef (recentDocs st')) = Some t
           \<and> fresh_refs (length (heap st)) (length (heap st')) (val_refs v)
           \<and> (\<forall>c \<in> set (drop (length (heap st)) (heap st')).
                 fresh_refs (length (heap st)) (length (heap st')) (cell_refs c))
           \<and> (\<forall>H. take (length (heap st)) H = heap st \<longrightarrow>
                 stringify n H (VRef (recentDocs st)) = Some t
               \<and> hasDocs (st\<lparr>heap := H\<rparr>) = hasDocs st)
           \<and> array_length (heap st') v = array_length (heap st) (VRef (recentDocs st))
           \<and> (hasDocs st \<longleftrightarrow> 0 < array_length (heap st') v))"
proof -
  let ?h = "heap st"
  let ?a = "recentDocs st"
  obtain v h' where p: "parse t ?h = (v, h')" by (cases "parse t ?h")
  let ?st' = "st\<lparr>heap := h'\<rparr>"
  from assms p have g: "get n st = Some (v, ?st')" by (simp add: get_def)
  have gm: "\<forall>m \<ge> n. get m st = Some (v, ?st')"
  proof (intro allI impI)
    fix m assume "n \<le> m"
    from stringify_more [OF assms this] p show "get m st = Some (v, ?st')"
      by (simp add: get_def)
  qed
  from parse_grows(1) [OF p] have pre: "take (length ?h) h' = ?h" by simp
  from stringify_nesting [OF assms] have nest: "nesting t \<le> n" .
  have copy: "stringify n h' v = Some t"
    by (rule parse_roundtrip(1) [OF p nest]) simp
  have keep: "stringify n H (VRef ?a) = Some t" if "take (length ?h) H = ?h" for H
    using that assms by (rule stringify_extend)
  from parse_fresh(1) [OF p] obtain ext where ext: "h' = ?h @ ext"
    and fv: "fresh_refs (length ?h) (length h') (val_refs v)"
    and fc: "\<forall>c \<in> set ext. fresh_refs (length ?h) (length h') (cell_refs c)"
    by blast
  from ext have dr: "drop (length ?h) h' = ext" by simp
  from assms obtain k where n: "n = Suc k" by (cases n) auto
  from assms n have lt: "?a < length ?h" by (simp split: if_splits)
  have hd: "hasDocs (st\<lparr>heap := H\<rparr>) = hasDocs st" if H: "take (length ?h) H = ?h" for H
    using prefix_agrees [OF H lt] lt by (simp add: hasDocs_def array_length_def)
  have al: "array_length h' v = array_length ?h (VRef ?a)"
    by (rule array_length_copy [OF assms p])
  have c3: "recentDocs ?st' = recentDocs st" by simp
  have c4: "take (length (heap st)) (heap ?st') = heap st" using pre by simp
  have c5: "stringify n (heap ?st') v = Some t" using copy by simp
  have c6: "stringify n (heap ?st') (VRef (recentDocs ?st')) = Some t"
    using keep [OF pre] by simp
  have c7: "fresh_refs (length (heap st)) (length (heap ?st')) (val_refs v)"
    using fv by simp
  have c8: "\<forall>c \<in> set (drop (length (heap st)) (heap ?st')).
             fresh_refs (length (heap st)) (length (heap ?st')) (cell_refs c)"
    using fc by (simp add: dr)
  have c9: "\<forall>H. take (length (heap st)) H = heap st \<longrightarrow>
             stringify n H (VRef (recentDocs st)) = Some t
           \<and> hasDocs (st\<lparr>heap := H\<rparr>) = hasDocs st"
    using keep hd by blast
  have c10: "array_length (heap ?st') v = array_length (heap st) (VRef (recentDocs st))"
    using al by simp
  have c11: "hasDocs st \<longleftrightarrow> 0 < array_length (heap ?st') v"
    unfolding c10 hasDocs_def by simp
  have first: "\<exists>v st'. \<forall>m \<ge> n. get m st = Some (v, st')"
    using gm by blast
  have second: "recentDocs st0 = recentDocs st
           \<and> take (length (heap st)) (heap st0) = heap st
           \<and> stringify n (heap st0) v0 = Some t
           \<and> stringify n (heap st0) (VRef (recentDocs st0)) = Some t
           \<and> fresh_refs (length (heap st)) (length (heap st0)) (val_refs v0)
           \<and> (\<forall>c \<in> set (drop (length (heap st)) (heap st0)).
                 fresh_refs (length (heap st)) (length (heap st0)) (cell_refs c))
           \<and> (\<forall>H. take (length (heap st)) H = heap st \<longrightarrow>
                 stringify n H (VRef (recentDocs st)) = Some t
               \<and> hasDocs (st\<lparr>heap := H\<rparr>) = hasDocs st)
           \<and> array_length (heap st0) v0 = array_length (heap st) (VRef (recentDocs st))
           \<and> (hasDocs st \<longleftrightarrow> 0 < array_length (heap st0) v0)"
    if "get n st = Some (v0, st0)" for v0 st0
  proof -
    from that g have e: "v0 = v" "st0 = ?st'" by simp_all
    show ?thesis unfolding e
      by (intro conjI) (rule c3 c4 c5 c6 c7 c8 c9 c10 c11)+
  qed
  from first second show ?thesis by blast
qed

theorem get_returns_deep_copy_witness:
  "stringify 5 (heap example_provider) (VRef (recentDocs example_provider))
     = Some (JsArr [JsObj [(''path'', JsStr ''/a.md''), (''tags'', JsArr [JsStr ''x''])]])
 \<and> get 5 example_provider
     = Some (VRef 5,
         example_provider\<lparr>heap := heap example_provider @
           [Arr [VStr ''x''], Obj [(''path'', VStr ''/a.md''), (''tags'', VRef 3)], Arr [VRef 4]]\<rparr>)
 \<and> stringify 5
       (heap example_provider @
          [Arr [VStr ''x''], Obj [(''path'', VStr ''/a.md''), (''tags'', VRef 3)], Arr [VRef 4]])
       (VRef 5)
     = Some (JsArr [JsObj [(''path'', JsStr ''/a.md''), (''tags'', JsArr [JsStr ''x''])]])
 \<and> stringify 5
       (heap example_provider @
          [Arr [], Obj [(''path'', VStr ''/other.md''), (''tags'', VRef 3)], Arr []])
       (VRef (recentDocs example_provider))
     = Some (JsArr [JsObj [(''path'', JsStr ''/a.md''), (''tags'', JsArr [JsStr ''x''])]])
 \<and> hasDocs example_provider"
proof -
  let ?t = "JsArr [JsObj [(''path'', JsStr ''/a.md''), (''tags'', JsArr [JsStr ''x''])]]"
  let ?new = "[Arr [VStr ''x''], Obj [(''path'', VStr ''/a.md''), (''tags'', VRef 3)], Arr [VRef 4]]"
  let ?mut = "[Arr [], Obj [(''path'', VStr ''/other.md''), (''tags'', VRef 3)], Arr []]"
  have s: "stringify 5 (heap example_provider) (VRef (recentDocs example_provider)) = Some ?t"
    by code_simp
  have g: "get 5 example_provider
      = Some (VRef 5, example_provider\<lparr>heap := heap example_provider @ ?new\<rparr>)"
    by code_simp
  note P = get_returns_deep_copy [OF s, THEN conjunct2, rule_format, OF g]
  let ?st' = "example_provider\<lparr>heap := heap example_provider @ ?new\<rparr>"
  from P have copy: "stringify 5 (heap ?st') (VRef 5) = Some ?t"
    by (elim conjE)
  from P have frame: "\<forall>H. take (length (heap example_provider)) H = heap example_provider \<longrightarrow>
             stringify 5 H (VRef (recentDocs example_provider)) = Some ?t
           \<and> hasDocs (example_provider\<lparr>heap := H\<rparr>) = hasDocs example_provider"
    by (elim conjE)
  from P have len: "hasDocs example_provider \<longleftrightarrow> 0 < array_length (heap ?st') (VRef 5)"
    by (elim conjE)
  from copy have c: "stringify 5 (heap example_provider @ ?new) (VRef 5) = Some ?t"
    by simp
  have "take (length (heap example_provider)) (heap example_provider @ ?mut) = heap example_provider"
    by simp
  with frame have f: "stringify 5 (heap example_provider @ ?mut) (VRef (recentDocs example_provider))
      = Some ?t" by (elim allE impE conjE)
  have "0 < array_length (heap ?st') (VRef 5)"
    by (simp add: array_length_def example_provider_def)
  with len have hd: "hasDocs example_provider" by simp
  from s g c f hd show ?thesis by (intro conjI)
qed

end
